theory Spec2Isabelle
  imports
    Main
    "HOL-Library.AList"
    "HOL-Library.Char_ord"
    "HOL-Library.List_Lexorder"
    "HOL-Library.Product_Lexorder"
    "HOL-Library.Sublist"
begin

section \<open>Station identity and the graph store\<close>

text \<open>
  The metro route finder of \<^verbatim>\<open>Assessment2.py\<close>. A station is a name
  together with a line; its node identifier is the text \<^verbatim>\<open>"{name} ({line})"\<close>.
  Python strings are compared code point by code point, which is the lexicographic order
  on \<^typ>\<open>string\<close> given by the library.
\<close>

record station =
  name :: string
  line :: string

text \<open>\<^verbatim>\<open>Station.id\<close>: the f-string \<^verbatim>\<open>f"{self.name} ({self.line})"\<close>.\<close>

definition station_id :: "station \<Rightarrow> string" where
  "station_id st = name st @ '' ('' @ line st @ '')''"

text \<open>
  Both dictionaries of \<^verbatim>\<open>Graph\<close> are association lists in insertion order, as a
  Python dict is: storing under a key that is present replaces the value in place, a new
  key goes to the end (\<^const>\<open>AList.update\<close>).
\<close>

record graph =
  nodes :: "(string \<times> station) list"
  edges :: "(string \<times> (string \<times> int) list) list"

datatype error = KeyError

definition Graph :: graph where
  "Graph = \<lparr>nodes = [], edges = []\<rparr>"

definition add_station :: "graph \<Rightarrow> station \<Rightarrow> graph" where
  "add_station g st =
     g\<lparr>nodes := AList.update (station_id st) st (nodes g),
       edges := AList.update (station_id st) [] (edges g)\<rparr>"

text \<open>
  \<^verbatim>\<open>add_connection\<close> reads \<^verbatim>\<open>self.edges[from_id]\<close>, appends, then reads
  \<^verbatim>\<open>self.edges[to_id]\<close> (from the store as already changed) and appends; a missing
  key raises \<^verbatim>\<open>KeyError\<close>.
\<close>

definition add_connection :: "graph \<Rightarrow> string \<Rightarrow> string \<Rightarrow> int \<Rightarrow> error + graph" where
  "add_connection g from_id to_id time =
     (case map_of (edges g) from_id of
        None \<Rightarrow> Inl KeyError
      | Some froms \<Rightarrow>
          let g1 = g\<lparr>edges := AList.update from_id (froms @ [(to_id, time)]) (edges g)\<rparr>
          in (case map_of (edges g1) to_id of
                None \<Rightarrow> Inl KeyError
              | Some tos \<Rightarrow>
                  Inr (g1\<lparr>edges := AList.update to_id (tos @ [(from_id, time)]) (edges g1)\<rparr>)))"

section \<open>Building the graph\<close>

text \<open>
  A row of the data frame is the pair of its \<^verbatim>\<open>Station\<close> and \<^verbatim>\<open>Line\<close> columns,
  both text; reading the file is not part of the model.
\<close>

type_synonym row = "string \<times> string"

definition Station :: "row \<Rightarrow> string" where
  "Station r = fst r"

definition Line :: "row \<Rightarrow> string" where
  "Line r = snd r"

text \<open>
  A \<^verbatim>\<open>for\<close> loop whose body may raise: the first error ends the loop.
\<close>

fun for_each :: "('a \<Rightarrow> 's \<Rightarrow> error + 's) \<Rightarrow> 'a list \<Rightarrow> 's \<Rightarrow> error + 's" where
  "for_each body [] s = Inr s"
| "for_each body (x # xs) s =
     (case body x s of Inl e \<Rightarrow> Inl e | Inr s' \<Rightarrow> for_each body xs s')"

text \<open>
  \<^verbatim>\<open>df.groupby(col)\<close> iterates over the distinct keys in ascending order; each
  group holds the rows with that key in their original order.
\<close>

definition groupby :: "(row \<Rightarrow> string) \<Rightarrow> row list \<Rightarrow> (string \<times> row list) list" where
  "groupby col df =
     map (\<lambda>k. (k, filter (\<lambda>r. col r = k) df)) (sort (remdups (map col df)))"

text \<open>
  \<^verbatim>\<open>group.sort_values("Station")\<close>. Rows of one group with the same station are
  equal in both columns, so the order pandas leaves among them cannot be observed.
\<close>

definition sort_values :: "row list \<Rightarrow> row list" where
  "sort_values grp = sort_key Station grp"

text \<open>
  \<^verbatim>\<open>random.randint(a, b)\<close> is the library's: an integer between \<open>a\<close> and \<open>b\<close>
  inclusive. The generator is a parameter, the sequence \<open>rnd\<close> of its raw outputs, and
  the state threaded through the builder counts the draws made so far.
\<close>

definition randint :: "int \<Rightarrow> int \<Rightarrow> nat \<Rightarrow> int" where
  "randint a b raw = a + int raw mod (b - a + 1)"

text \<open>Lines 39 to 41: one \<^verbatim>\<open>add_station\<close> per row.\<close>

definition add_stations :: "row list \<Rightarrow> graph \<Rightarrow> graph" where
  "add_stations df g =
     fold (\<lambda>r g. add_station g \<lparr>name = Station r, line = Line r\<rparr>) df g"

text \<open>Lines 46 to 50: the body of the loop over \<^verbatim>\<open>range(len(stations) - 1)\<close>.\<close>

definition connect_pair ::
  "(nat \<Rightarrow> nat) \<Rightarrow> string \<Rightarrow> row list \<Rightarrow> nat \<Rightarrow> graph \<times> nat \<Rightarrow> error + graph \<times> nat" where
  "connect_pair rnd ln stations i s =
     (case s of (g, drawn) \<Rightarrow>
        let a = station_id \<lparr>name = Station (stations ! i), line = ln\<rparr>;
            b = station_id \<lparr>name = Station (stations ! (i + 1)), line = ln\<rparr>;
            time = randint 2 8 (rnd drawn)
        in (case add_connection g a b time of
              Inl e \<Rightarrow> Inl e
            | Inr g' \<Rightarrow> Inr (g', Suc drawn)))"

text \<open>Lines 44 to 50: the loop over the lines.\<close>

definition connect_line ::
  "(nat \<Rightarrow> nat) \<Rightarrow> string \<times> row list \<Rightarrow> graph \<times> nat \<Rightarrow> error + graph \<times> nat" where
  "connect_line rnd lg s =
     (case lg of (ln, grp) \<Rightarrow>
        let stations = sort_values grp
        in for_each (connect_pair rnd ln stations) [0..<length stations - 1] s)"

definition connect_lines :: "(nat \<Rightarrow> nat) \<Rightarrow> row list \<Rightarrow> graph \<times> nat \<Rightarrow> error + graph \<times> nat" where
  "connect_lines rnd df s = for_each (connect_line rnd) (groupby Line df) s"

text \<open>Lines 53 to 59: the transfers at the stations that several lines share.\<close>

definition transfer_pair :: "string \<Rightarrow> string list \<Rightarrow> nat \<Rightarrow> nat \<Rightarrow> graph \<Rightarrow> error + graph" where
  "transfer_pair station_name lines i j g =
     (let a = station_name @ '' ('' @ lines ! i @ '')'';
          b = station_name @ '' ('' @ lines ! j @ '')''
      in add_connection g a b 5)"

definition add_transfer :: "string \<times> row list \<Rightarrow> graph \<Rightarrow> error + graph" where
  "add_transfer sg g =
     (case sg of (station_name, grp) \<Rightarrow>
        let lines = map Line grp
        in for_each
             (\<lambda>i. for_each (transfer_pair station_name lines i) [i + 1..<length lines])
             [0..<length lines] g)"

definition add_transfers :: "row list \<Rightarrow> graph \<Rightarrow> error + graph" where
  "add_transfers df g = for_each add_transfer (groupby Station df) g"

definition build_graph :: "row list \<Rightarrow> (nat \<Rightarrow> nat) \<Rightarrow> error + graph" where
  "build_graph df rnd =
     (case connect_lines rnd df (add_stations df Graph, 0) of
        Inl e \<Rightarrow> Inl e
      | Inr (g, drawn) \<Rightarrow> add_transfers df g)"

section \<open>Candidate resolution\<close>

definition startswith :: "string \<Rightarrow> string \<Rightarrow> bool" where
  "startswith s p = prefix p s"

text \<open>
  The comprehension \<^verbatim>\<open>[sid for sid in graph.nodes if sid.startswith(nm)]\<close> that
  opens both path finders.
\<close>

definition candidates :: "graph \<Rightarrow> string \<Rightarrow> string list" where
  "candidates g nm = filter (\<lambda>sid. startswith sid nm) (map fst (nodes g))"

section \<open>Fewest stops\<close>

text \<open>
  The state of the search of \<^verbatim>\<open>find_shortest_path\<close>: the deque, the visited set and
  the parent dictionary, whose values are an identifier or \<^verbatim>\<open>None\<close>.
\<close>

type_synonym bfs_state = "string list \<times> string set \<times> (string \<rightharpoonup> string option)"

text \<open>Lines 74 to 77: the body of the loop that seeds the start candidates.\<close>

definition seed :: "string \<Rightarrow> bfs_state \<Rightarrow> bfs_state" where
  "seed sid s =
     (case s of (queue, visited, parent) \<Rightarrow>
        (queue @ [sid], insert sid visited, parent(sid \<mapsto> None)))"

text \<open>Lines 88 to 92: the body of the loop over the neighbours of \<open>current\<close>.\<close>

definition visit :: "string \<Rightarrow> string \<times> int \<Rightarrow> bfs_state \<Rightarrow> bfs_state" where
  "visit current e s =
     (case s of (queue, visited, parent) \<Rightarrow>
        (case e of (neighbor, time) \<Rightarrow>
           if neighbor \<notin> visited
           then (queue @ [neighbor], insert neighbor visited, parent(neighbor \<mapsto> Some current))
           else s))"

text \<open>Every identifier that some adjacency list of the store names.\<close>

definition named :: "graph \<Rightarrow> string set" where
  "named g = (\<Union>kv \<in> set (edges g). fst ` set (snd kv))"

lemma visit_simp:
  "visit c (n, t) (q, vis, par) =
     (if n \<notin> vis then (q @ [n], insert n vis, par(n \<mapsto> Some c)) else (q, vis, par))"
  by (simp add: visit_def)

lemma fold_visit_measure:
  assumes "fst ` set nbrs \<subseteq> U" and "finite U"
    and "fold (visit c) nbrs (q, vis, par) = (q', vis', par')"
  shows "card (U - vis') < card (U - vis) \<or> (vis' = vis \<and> q' = q)"
  using assms
proof (induction nbrs arbitrary: q vis par)
  case Nil
  then show ?case by simp
next
  case (Cons e nbrs)
  obtain n t where e: "e = (n, t)" by (cases e) auto
  show ?case
  proof (cases "n \<in> vis")
    case True
    with Cons.prems e have "fold (visit c) nbrs (q, vis, par) = (q', vis', par')"
      by (simp add: visit_simp)
    with Cons.IH Cons.prems(1,2) show ?thesis by simp
  next
    case False
    with Cons.prems e have
      f: "fold (visit c) nbrs (q @ [n], insert n vis, par(n \<mapsto> Some c)) = (q', vis', par')"
      by (simp add: visit_simp)
    have "n \<in> U - vis" using Cons.prems(1) e False by auto
    then have "card (U - insert n vis) < card (U - vis)"
      using Cons.prems(2)
      by (metis Diff_insert card_Diff1_less finite_Diff)
    moreover from Cons.IH[OF _ Cons.prems(2) f] Cons.prems(1)
    have "card (U - vis') < card (U - insert n vis) \<or> (vis' = insert n vis \<and> q' = q @ [n])"
      by simp
    ultimately show ?thesis by auto
  qed
qed

text \<open>The search can only shrink this pair, in the lexicographic order.\<close>

definition bfs_measure :: "graph \<times> string list \<times> bfs_state \<Rightarrow> nat \<times> nat" where
  "bfs_measure x =
     (case x of (g, end_ids, queue, visited, parent) \<Rightarrow>
        (card (named g - visited), length queue))"

lemma bfs_step_decreases:
  assumes "map_of (edges g) current = Some nbrs"
  shows "((g, end_ids, fold (visit current) nbrs (queue, visited, parent)),
          (g, end_ids, current # queue, visited, parent))
         \<in> inv_image (less_than <*lex*> less_than) bfs_measure"
proof -
  obtain q' vis' par' where
    f: "fold (visit current) nbrs (queue, visited, parent) = (q', vis', par')"
    by (cases "fold (visit current) nbrs (queue, visited, parent)") auto
  from assms have "(current, nbrs) \<in> set (edges g)" by (rule map_of_SomeD)
  then have sub: "fst ` set nbrs \<subseteq> named g" by (force simp: named_def)
  have fin: "finite (named g)" by (simp add: named_def)
  from fold_visit_measure[OF sub fin f] show ?thesis
    by (auto simp: f bfs_measure_def)
qed

text \<open>
  Lines 79 to 94: the \<^verbatim>\<open>while queue\<close> loop. It ends with the node found and the
  parent dictionary, with \<^verbatim>\<open>None\<close> when the deque runs empty, or with the
  \<^verbatim>\<open>KeyError\<close> of \<^verbatim>\<open>graph.edges[current]\<close>.
\<close>

function bfs_loop ::
  "graph \<Rightarrow> string list \<Rightarrow> bfs_state \<Rightarrow> error + (string \<times> (string \<rightharpoonup> string option)) option" where
  "bfs_loop g end_ids ([], visited, parent) = Inr None"
| "bfs_loop g end_ids (current # queue, visited, parent) =
     (if current \<in> set end_ids then Inr (Some (current, parent))
      else (case map_of (edges g) current of
              None \<Rightarrow> Inl KeyError
            | Some nbrs \<Rightarrow> bfs_loop g end_ids (fold (visit current) nbrs (queue, visited, parent))))"
  by pat_completeness auto
termination
proof (relation "inv_image (less_than <*lex*> less_than) bfs_measure")
  show "wf (inv_image (less_than <*lex*> less_than) bfs_measure)"
    by (intro wf_inv_image wf_lex_prod wf_less_than)
qed (rule bfs_step_decreases)

text \<open>
  Lines 82 to 85: the walk back along the parents, \<^verbatim>\<open>while current\<close>, which stops
  at \<^verbatim>\<open>None\<close> and at the empty string; \<^verbatim>\<open>parent[current]\<close> raises on a missing
  key. Nothing in the loop itself bounds it, so that not ending is the value \<open>None\<close>.
\<close>

partial_function (option) trace_parent ::
  "(string \<rightharpoonup> string option) \<Rightarrow> string option \<Rightarrow> string list \<Rightarrow> (error + string list) option" where
  "trace_parent parent current path =
     (case current of
        None \<Rightarrow> Some (Inr path)
      | Some c \<Rightarrow>
          if c = [] then Some (Inr path)
          else (case parent c of
                  None \<Rightarrow> Some (Inl KeyError)
                | Some p \<Rightarrow> trace_parent parent p (path @ [c])))"

declare trace_parent.simps [code]

text \<open>
  \<^verbatim>\<open>find_shortest_path\<close>. The result is \<open>Some (Inr (Some path))\<close> for a path
  returned, \<open>Some (Inr None)\<close> for the \<^verbatim>\<open>None\<close> of line 94, \<open>Some (Inl e)\<close> for an
  exception, and \<open>None\<close> when the call does not return.
\<close>

definition find_shortest_path ::
  "graph \<Rightarrow> string \<Rightarrow> string \<Rightarrow> (error + string list option) option" where
  "find_shortest_path g start_name end_name =
     (let start_ids = candidates g start_name;
          end_ids = candidates g end_name
      in (case bfs_loop g end_ids (fold seed start_ids ([], {}, Map.empty)) of
            Inl e \<Rightarrow> Some (Inl e)
          | Inr None \<Rightarrow> Some (Inr None)
          | Inr (Some (current, parent)) \<Rightarrow>
              (case trace_parent parent (Some current) [] of
                 None \<Rightarrow> None
               | Some (Inl e) \<Rightarrow> Some (Inl e)
               | Some (Inr path) \<Rightarrow> Some (Inr (Some (rev path))))))"

section \<open>Least time\<close>

text \<open>
  A recorded distance is an integer or \<^verbatim>\<open>float('inf')\<close>. The heap of
  \<^verbatim>\<open>heapq\<close> is a list whose pop takes out the least pair, pairs being compared as
  Python compares tuples (the distance, then the identifier); which of two equal pairs
  leaves cannot be observed. The loop pops only from a heap that its guard found
  non-empty.
\<close>

datatype cost = Finite int | Infinite

fun less_cost :: "int \<Rightarrow> cost \<Rightarrow> bool" where
  "less_cost n Infinite = True"
| "less_cost n (Finite m) = (n < m)"

type_synonym heap = "(int \<times> string) list"

definition heappush :: "heap \<Rightarrow> int \<times> string \<Rightarrow> heap" where
  "heappush queue item = item # queue"

definition heappop :: "heap \<Rightarrow> (int \<times> string) \<times> heap" where
  "heappop queue = (Min (set queue), remove1 (Min (set queue)) queue)"

type_synonym dijkstra_state = "heap \<times> (string \<rightharpoonup> cost) \<times> (string \<rightharpoonup> string)"

text \<open>Lines 104 to 106: the body of the loop that seeds the start candidates.\<close>

definition seed_distance :: "string \<Rightarrow> dijkstra_state \<Rightarrow> dijkstra_state" where
  "seed_distance sid s =
     (case s of (queue, distances, previous) \<Rightarrow>
        (heappush queue (0, sid), distances(sid \<mapsto> Finite 0), previous))"

text \<open>Lines 117 to 122: the body of the loop over the edges out of \<open>current\<close>.\<close>

definition relax :: "string \<Rightarrow> int \<Rightarrow> string \<times> int \<Rightarrow> dijkstra_state \<Rightarrow> error + dijkstra_state" where
  "relax current current_dist e s =
     (case s of (queue, distances, previous) \<Rightarrow>
        (case e of (neighbor, time) \<Rightarrow>
           let new_dist = current_dist + time
           in (case distances neighbor of
                 None \<Rightarrow> Inl KeyError
               | Some d \<Rightarrow>
                   if less_cost new_dist d
                   then Inr (heappush queue (new_dist, neighbor),
                             distances(neighbor \<mapsto> Finite new_dist),
                             previous(neighbor \<mapsto> current))
                   else Inr s)))"

text \<open>
  Lines 108 to 124: the \<^verbatim>\<open>while queue\<close> loop. With a cycle of negative weight it
  never ends, so that not ending is the value \<open>None\<close>.
\<close>

partial_function (option) dijkstra_loop ::
  "graph \<Rightarrow> string list \<Rightarrow> dijkstra_state
     \<Rightarrow> (error + (string \<times> int \<times> (string \<rightharpoonup> string)) option) option" where
  "dijkstra_loop g end_ids s =
     (case s of (queue, distances, previous) \<Rightarrow>
        if queue = [] then Some (Inr None)
        else (case heappop queue of ((current_dist, current), rest) \<Rightarrow>
                if current \<in> set end_ids then Some (Inr (Some (current, current_dist, previous)))
                else (case map_of (edges g) current of
                        None \<Rightarrow> Some (Inl KeyError)
                      | Some nbrs \<Rightarrow>
                          (case for_each (relax current current_dist) nbrs
                                  (rest, distances, previous) of
                             Inl e \<Rightarrow> Some (Inl e)
                           | Inr s' \<Rightarrow> dijkstra_loop g end_ids s'))))"

declare dijkstra_loop.simps [code]

text \<open>Lines 112 to 114: the walk back, with \<^verbatim>\<open>previous.get(current)\<close>.\<close>

partial_function (option) trace_previous ::
  "(string \<rightharpoonup> string) \<Rightarrow> string option \<Rightarrow> string list \<Rightarrow> string list option" where
  "trace_previous previous current path =
     (case current of
        None \<Rightarrow> Some path
      | Some c \<Rightarrow>
          if c = [] then Some path
          else trace_previous previous (previous c) (path @ [c]))"

declare trace_previous.simps [code]

text \<open>
  \<^verbatim>\<open>find_fastest_path\<close>, with the same reading of the result; line 124 returns
  \<^verbatim>\<open>None\<close> with the infinite cost.
\<close>

definition find_fastest_path ::
  "graph \<Rightarrow> string \<Rightarrow> string \<Rightarrow> (error + string list option \<times> cost) option" where
  "find_fastest_path g start_name end_name =
     (let start_ids = candidates g start_name;
          end_ids = candidates g end_name;
          distances = map_of (map (\<lambda>sid. (sid, Infinite)) (map fst (nodes g)))
      in (case dijkstra_loop g end_ids (fold seed_distance start_ids ([], distances, Map.empty)) of
            None \<Rightarrow> None
          | Some (Inl e) \<Rightarrow> Some (Inl e)
          | Some (Inr None) \<Rightarrow> Some (Inr (None, Infinite))
          | Some (Inr (Some (current, current_dist, previous))) \<Rightarrow>
              (case trace_previous previous (Some current) [] of
                 None \<Rightarrow> None
               | Some path \<Rightarrow> Some (Inr (Some (rev path), Finite current_dist)))))"

section \<open>The finders as steps on the store\<close>

text \<open>
  A caller passes the \<^verbatim>\<open>Graph\<close> object to a finder and holds the same object after
  the call: \<^verbatim>\<open>main\<close> hands its graph to \<^verbatim>\<open>find_shortest_path\<close> and then to
  \<^verbatim>\<open>find_fastest_path\<close>. To speak of a call and of the call after it, lines 66 to 124
  are embedded once more with the store threaded through them: every statement that
  touches the object takes the store and gives back the store as it leaves it, and a
  call returns its result together with the store it leaves. The visited set, the
  dictionaries, the deque and the heap are made anew by each call (lines 70 to 72 and
  100 to 102), so that they are no part of what one call leaves to the next.

  The finders touch the object in two ways. They iterate over \<^verbatim>\<open>graph.nodes\<close>, which
  gives the keys in the order of insertion.
\<close>

definition graph_nodes :: "graph \<Rightarrow> string list \<times> graph" where
  "graph_nodes g = (map fst (nodes g), g)"

text \<open>
  And they look up \<^verbatim>\<open>graph.edges[current]\<close>; \<^verbatim>\<open>edges\<close> is a plain dictionary, whose
  lookup of a missing key raises and inserts nothing.
\<close>

definition graph_edges :: "string \<Rightarrow> graph \<Rightarrow> (error + (string \<times> int) list) \<times> graph" where
  "graph_edges current g =
     (case map_of (edges g) current of
        None \<Rightarrow> (Inl KeyError, g)
      | Some nbrs \<Rightarrow> (Inr nbrs, g))"

text \<open>Lines 67, 68, 97 and 98: the comprehension over \<^verbatim>\<open>graph.nodes\<close>.\<close>

definition candidates_st :: "string \<Rightarrow> graph \<Rightarrow> string list \<times> graph" where
  "candidates_st nm g =
     (case graph_nodes g of (ids, g') \<Rightarrow> (filter (\<lambda>sid. startswith sid nm) ids, g'))"

text \<open>Lines 79 to 94, the loop of the search for the fewest stops.\<close>

partial_function (option) bfs_loop_st ::
  "string list \<Rightarrow> bfs_state \<Rightarrow> graph
     \<Rightarrow> ((error + (string \<times> (string \<rightharpoonup> string option)) option) \<times> graph) option" where
  "bfs_loop_st end_ids s g =
     (case s of (queue, visited, parent) \<Rightarrow>
        (case queue of
           [] \<Rightarrow> Some (Inr None, g)
         | current # rest \<Rightarrow>
             if current \<in> set end_ids then Some (Inr (Some (current, parent)), g)
             else (case graph_edges current g of (looked_up, g') \<Rightarrow>
                     (case looked_up of
                        Inl e \<Rightarrow> Some (Inl e, g')
                      | Inr nbrs \<Rightarrow>
                          bfs_loop_st end_ids (fold (visit current) nbrs (rest, visited, parent)) g'))))"

declare bfs_loop_st.simps [code]

text \<open>Lines 66 to 94.\<close>

definition find_shortest_path_st ::
  "graph \<Rightarrow> string \<Rightarrow> string \<Rightarrow> ((error + string list option) \<times> graph) option" where
  "find_shortest_path_st g start_name end_name =
     (case candidates_st start_name g of (start_ids, g1) \<Rightarrow>
      case candidates_st end_name g1 of (end_ids, g2) \<Rightarrow>
        (case bfs_loop_st end_ids (fold seed start_ids ([], {}, Map.empty)) g2 of
           None \<Rightarrow> None
         | Some (found, g3) \<Rightarrow>
             (case found of
                Inl e \<Rightarrow> Some (Inl e, g3)
              | Inr None \<Rightarrow> Some (Inr None, g3)
              | Inr (Some (current, parent)) \<Rightarrow>
                  (case trace_parent parent (Some current) [] of
                     None \<Rightarrow> None
                   | Some (Inl e) \<Rightarrow> Some (Inl e, g3)
                   | Some (Inr path) \<Rightarrow> Some (Inr (Some (rev path)), g3)))))"

text \<open>Lines 108 to 124, the loop of the search for the least time.\<close>

partial_function (option) dijkstra_loop_st ::
  "string list \<Rightarrow> dijkstra_state \<Rightarrow> graph
     \<Rightarrow> ((error + (string \<times> int \<times> (string \<rightharpoonup> string)) option) \<times> graph) option" where
  "dijkstra_loop_st end_ids s g =
     (case s of (queue, distances, previous) \<Rightarrow>
        if queue = [] then Some (Inr None, g)
        else (case heappop queue of ((current_dist, current), rest) \<Rightarrow>
                if current \<in> set end_ids
                then Some (Inr (Some (current, current_dist, previous)), g)
                else (case graph_edges current g of (looked_up, g') \<Rightarrow>
                        (case looked_up of
                           Inl e \<Rightarrow> Some (Inl e, g')
                         | Inr nbrs \<Rightarrow>
                             (case for_each (relax current current_dist) nbrs
                                     (rest, distances, previous) of
                                Inl e \<Rightarrow> Some (Inl e, g')
                              | Inr s' \<Rightarrow> dijkstra_loop_st end_ids s' g')))))"

declare dijkstra_loop_st.simps [code]

text \<open>Lines 96 to 124; line 100 iterates over \<^verbatim>\<open>graph.nodes\<close> a third time.\<close>

definition find_fastest_path_st ::
  "graph \<Rightarrow> string \<Rightarrow> string \<Rightarrow> ((error + string list option \<times> cost) \<times> graph) option" where
  "find_fastest_path_st g start_name end_name =
     (case candidates_st start_name g of (start_ids, g1) \<Rightarrow>
      case candidates_st end_name g1 of (end_ids, g2) \<Rightarrow>
      case graph_nodes g2 of (ids, g3) \<Rightarrow>
        (let distances = map_of (map (\<lambda>sid. (sid, Infinite)) ids)
         in (case dijkstra_loop_st end_ids
                    (fold seed_distance start_ids ([], distances, Map.empty)) g3 of
               None \<Rightarrow> None
             | Some (found, g4) \<Rightarrow>
                 (case found of
                    Inl e \<Rightarrow> Some (Inl e, g4)
                  | Inr None \<Rightarrow> Some (Inr (None, Infinite), g4)
                  | Inr (Some (current, current_dist, previous)) \<Rightarrow>
                      (case trace_previous previous (Some current) [] of
                         None \<Rightarrow> None
                       | Some path \<Rightarrow> Some (Inr (Some (rev path), Finite current_dist), g4))))))"

section \<open>Abstractions of the store and of the searches\<close>

text \<open>
  What follows is not code of the program: the vocabulary in which its properties are
  stated (adjacency, walks, the connections a loop makes, the invariants of the two
  searches), and the small networks on which the theorems are instantiated.
\<close>

text \<open>A call of \<^verbatim>\<open>add_connection\<close>: its two identifiers and its weight.\<close>

type_synonym call = "string \<times> string \<times> int"

text \<open>The adjacency list of a node, empty for an identifier that is no key.\<close>

definition adjacent :: "graph \<Rightarrow> string \<Rightarrow> (string \<times> int) list" where
  "adjacent g v = (case map_of (edges g) v of None \<Rightarrow> [] | Some nbrs \<Rightarrow> nbrs)"

text \<open>A sequence of calls, made in order on the store.\<close>

definition add_connections :: "call list \<Rightarrow> graph \<Rightarrow> error + graph" where
  "add_connections cs g = for_each (\<lambda>c g. add_connection g (fst c) (fst (snd c)) (snd (snd c))) cs g"

text \<open>
  What a sequence of calls appends to the adjacency list of \<open>v\<close>: for each call, the far
  end when \<open>v\<close> is its first identifier, then the near end when \<open>v\<close> is its second.
\<close>

definition entries :: "call list \<Rightarrow> string \<Rightarrow> (string \<times> int) list" where
  "entries cs v =
     concat (map (\<lambda>c. (if v = fst c then [(fst (snd c), snd (snd c))] else []) @
                      (if v = fst (snd c) then [(fst c, snd (snd c))] else [])) cs)"

text \<open>The node identifier of a row.\<close>

definition row_id :: "row \<Rightarrow> string" where
  "row_id r = station_id \<lparr>name = Station r, line = Line r\<rparr>"

text \<open>
  The calls that the loop of lines 46 to 50 makes for one line, given the station names
  in the order it walks them and the number of draws made before it.
\<close>

definition line_calls :: "(nat \<Rightarrow> nat) \<Rightarrow> string \<Rightarrow> string list \<Rightarrow> nat \<Rightarrow> call list" where
  "line_calls rnd ln names drawn =
     map (\<lambda>i. (station_id \<lparr>name = names ! i, line = ln\<rparr>,
               station_id \<lparr>name = names ! (i + 1), line = ln\<rparr>,
               randint 2 8 (rnd (drawn + i))))
       [0..<length names - 1]"

text \<open>The same for the loop over the groups of lines 44 to 50, line by line.\<close>

fun lines_calls ::
  "(nat \<Rightarrow> nat) \<Rightarrow> (string \<times> row list) list \<Rightarrow> nat \<Rightarrow> (string \<times> call list) list" where
  "lines_calls rnd [] drawn = []"
| "lines_calls rnd (lg # rest) drawn =
     (fst lg, line_calls rnd (fst lg) (map Station (sort_values (snd lg))) drawn) #
     lines_calls rnd rest (drawn + (length (snd lg) - 1))"

text \<open>The calls that the loops of lines 55 to 59 make for one station, given its lines.\<close>

definition transfer_calls :: "string \<Rightarrow> string list \<Rightarrow> call list" where
  "transfer_calls station_name lines =
     concat (map (\<lambda>i. map (\<lambda>j. (station_name @ '' ('' @ lines ! i @ '')'',
                                station_name @ '' ('' @ lines ! j @ '')'', 5))
                         [i + 1..<length lines])
                 [0..<length lines])"

text \<open>The same for the loop over the groups of lines 53 to 59, station by station.\<close>

definition stations_calls :: "row list \<Rightarrow> (string \<times> call list) list" where
  "stations_calls df =
     map (\<lambda>sg. (fst sg, transfer_calls (fst sg) (map Line (snd sg)))) (groupby Station df)"

text \<open>All the calls of \<^verbatim>\<open>build_graph\<close>, in the order it makes them.\<close>

definition build_calls :: "row list \<Rightarrow> (nat \<Rightarrow> nat) \<Rightarrow> call list" where
  "build_calls df rnd =
     concat (map snd (lines_calls rnd (groupby Line df) 0)) @ concat (map snd (stations_calls df))"

text \<open>One line of two stations.\<close>

definition metro2 :: "row list" where
  "metro2 = [(''A'', ''L''), (''B'', ''L'')]"

text \<open>The same row twice.\<close>

definition metro_twice :: "row list" where
  "metro_twice = [(''A'', ''L''), (''A'', ''L'')]"

text \<open>A station name that begins another.\<close>

definition metro_prefix :: "row list" where
  "metro_prefix = [(''Bay'', ''L''), (''Bayfront'', ''L''), (''City'', ''L'')]"

text \<open>One line whose rows are not in alphabetical order.\<close>

definition metro3 :: "row list" where
  "metro3 = [(''A'', ''L1''), (''C'', ''L1''), (''B'', ''L1'')]"

text \<open>A station on three lines and a station on one.\<close>

definition metro_hub :: "row list" where
  "metro_hub = [(''Hub'', ''L1''), (''Hub'', ''L2''), (''Hub'', ''L3''), (''Pier'', ''L1'')]"

text \<open>\<open>u\<close> has \<open>v\<close> in its adjacency list.\<close>

definition edge :: "graph \<Rightarrow> string \<Rightarrow> string \<Rightarrow> bool" where
  "edge g u v \<longleftrightarrow> v \<in> fst ` set (adjacent g u)"

text \<open>A walk is a non-empty list of nodes, each joined to the next by an edge.\<close>

fun walk :: "graph \<Rightarrow> string list \<Rightarrow> bool" where
  "walk g [] = False"
| "walk g [v] = True"
| "walk g (u # v # p) = (edge g u v \<and> walk g (v # p))"

text \<open>
  What the searches need of a store: the two dictionaries have the same keys, every
  neighbour named is a key, no key is the empty string, and the weights are positive.
\<close>

definition store_ok :: "graph \<Rightarrow> bool" where
  "store_ok g \<longleftrightarrow>
     map fst (edges g) = map fst (nodes g) \<and>
     distinct (map fst (nodes g)) \<and>
     named g \<subseteq> fst ` set (edges g) \<and>
     [] \<notin> fst ` set (edges g) \<and>
     (\<forall>kv \<in> set (edges g). \<forall>e \<in> set (snd kv). 0 < snd e)"

text \<open>The neighbours that one pass over an adjacency list newly visits, in order.\<close>

fun fresh :: "string set \<Rightarrow> (string \<times> int) list \<Rightarrow> string list" where
  "fresh vis [] = []"
| "fresh vis (e # es) =
     (if fst e \<in> vis then fresh vis es else fst e # fresh (insert (fst e) vis) es)"

text \<open>
  The invariant of the breadth-first search, with the depth \<open>dep\<close> of every visited
  node as a ghost: the parents lead back to a start candidate in \<open>dep\<close> steps, the
  deque is sorted by depth and spans at most two depths, and the nodes already taken
  off the deque are not end candidates and have all their neighbours visited.
\<close>

definition bfs_inv ::
  "graph \<Rightarrow> string set \<Rightarrow> string set \<Rightarrow> (string \<Rightarrow> nat) \<Rightarrow> bfs_state \<Rightarrow> bool" where
  "bfs_inv g S T dep s \<longleftrightarrow>
     (case s of (q, vis, par) \<Rightarrow>
        set q \<subseteq> vis \<and> vis \<subseteq> fst ` set (edges g) \<and> S \<subseteq> vis \<and>
        (\<forall>v \<in> S. par v = Some None \<and> dep v = 0) \<and>
        (\<forall>v \<in> vis - S. \<exists>u \<in> vis. par v = Some (Some u) \<and> edge g u v \<and> dep v = Suc (dep u)) \<and>
        sorted (map dep q) \<and>
        (\<forall>v \<in> vis. \<forall>h \<in> set q. dep v \<le> Suc (dep h)) \<and>
        (\<forall>v \<in> vis - set q. \<forall>u. edge g v u \<longrightarrow> u \<in> vis \<and> dep u \<le> Suc (dep v)) \<and>
        (\<forall>v \<in> vis - set q. v \<notin> T))"

text \<open>Two lines that meet at one station, and the graph built from them when the draws are 0, 1, 2.\<close>

definition metro_two_lines :: "row list" where
  "metro_two_lines =
     [(''A'', ''L1''), (''C'', ''L1''), (''B'', ''L1''), (''B'', ''L2''), (''D'', ''L2'')]"

definition metro_two_lines_graph :: graph where
  "metro_two_lines_graph =
     \<lparr>nodes = [(''A (L1)'', \<lparr>name = ''A'', line = ''L1''\<rparr>),
               (''C (L1)'', \<lparr>name = ''C'', line = ''L1''\<rparr>),
               (''B (L1)'', \<lparr>name = ''B'', line = ''L1''\<rparr>),
               (''B (L2)'', \<lparr>name = ''B'', line = ''L2''\<rparr>),
               (''D (L2)'', \<lparr>name = ''D'', line = ''L2''\<rparr>)],
      edges = [(''A (L1)'', [(''B (L1)'', 2)]),
               (''C (L1)'', [(''B (L1)'', 3)]),
               (''B (L1)'', [(''A (L1)'', 2), (''C (L1)'', 3), (''B (L2)'', 5)]),
               (''B (L2)'', [(''D (L2)'', 4), (''B (L1)'', 5)]),
               (''D (L2)'', [(''B (L2)'', 4)])]\<rparr>"

text \<open>
  One pass of the loop over the edges out of \<open>current\<close>, seen from the state \<open>s0\<close> it
  started in, after the edges \<open>E\<close>: what has changed are the nodes that an edge of \<open>E\<close>
  improved, each of which has its new distance in the heap.
\<close>

definition relaxed ::
  "string \<Rightarrow> int \<Rightarrow> dijkstra_state \<Rightarrow> (string \<times> int) set \<Rightarrow> dijkstra_state \<Rightarrow> bool" where
  "relaxed c d s0 E s \<longleftrightarrow>
     (case s0 of (q0, D0, P0) \<Rightarrow>
        (case s of (q, D, P) \<Rightarrow>
           dom D = dom D0 \<and>
           (\<forall>v. (D v = D0 v \<and> P v = P0 v) \<or>
                (\<exists>t c0. (v, t) \<in> E \<and> D v = Some (Finite (d + t)) \<and> P v = Some c \<and>
                        D0 v = Some c0 \<and> less_cost (d + t) c0)) \<and>
           (\<forall>e \<in> E. \<exists>x. D (fst e) = Some (Finite x) \<and> x \<le> d + snd e) \<and>
           set q0 \<subseteq> set q \<and>
           (\<forall>i \<in> set q - set q0. D (snd i) \<noteq> D0 (snd i) \<and> (\<exists>t. (snd i, t) \<in> E \<and> fst i = d + t)) \<and>
           (\<forall>v. D v \<noteq> D0 v \<longrightarrow> (\<exists>x. D v = Some (Finite x) \<and> (x, v) \<in> set q)) \<and>
           (\<forall>i \<in> set q. \<exists>y. D (snd i) = Some (Finite y) \<and> y \<le> fst i) \<and>
           distinct q \<and>
           (\<forall>v x0. D0 v = Some (Finite x0) \<longrightarrow> (\<exists>x. D v = Some (Finite x) \<and> x \<le> x0))))"

text \<open>
  A node is settled when its recorded distance is no longer in the heap. The invariant
  of the search: every heap entry is at least the recorded distance of its node, every
  recorded distance is that of the previous node plus an edge, and the settled nodes
  are not end candidates, are below every heap entry, and have been relaxed.
\<close>

definition settled :: "dijkstra_state \<Rightarrow> string \<Rightarrow> bool" where
  "settled s v \<longleftrightarrow> (case s of (q, D, P) \<Rightarrow> \<exists>y. D v = Some (Finite y) \<and> (y, v) \<notin> set q)"

definition dj_inv :: "graph \<Rightarrow> string set \<Rightarrow> string set \<Rightarrow> dijkstra_state \<Rightarrow> bool" where
  "dj_inv g S T s \<longleftrightarrow>
     (case s of (q, D, P) \<Rightarrow>
        dom D = fst ` set (edges g) \<and>
        (\<forall>i \<in> set q. \<exists>y. D (snd i) = Some (Finite y) \<and> y \<le> fst i) \<and>
        (\<forall>v x. D v = Some (Finite x) \<longrightarrow> 0 \<le> x) \<and>
        (\<forall>v \<in> S. D v = Some (Finite 0) \<and> P v = None) \<and>
        (\<forall>v x. D v = Some (Finite x) \<and> v \<notin> S \<longrightarrow>
           (\<exists>u y w. P v = Some u \<and> D u = Some (Finite y) \<and> (y, u) \<notin> set q \<and>
                    (v, w) \<in> set (adjacent g u) \<and> x = y + w)) \<and>
        (\<forall>u y. D u = Some (Finite y) \<and> (y, u) \<notin> set q \<longrightarrow>
           (\<forall>e \<in> set (adjacent g u). \<exists>x. D (fst e) = Some (Finite x) \<and> x \<le> y + snd e)) \<and>
        (\<forall>u y. D u = Some (Finite y) \<and> (y, u) \<notin> set q \<longrightarrow> (\<forall>i \<in> set q. y \<le> fst i)) \<and>
        (\<forall>u y. D u = Some (Finite y) \<and> (y, u) \<notin> set q \<longrightarrow> u \<notin> T) \<and>
        distinct q)"

text \<open>What a turn of the least-time loop shrinks: the unsettled keys, then the heap.\<close>

definition dj_measure :: "graph \<Rightarrow> dijkstra_state \<Rightarrow> nat \<times> nat" where
  "dj_measure g s = (card {v \<in> fst ` set (edges g). \<not> settled s v}, length (fst s))"

text \<open>
  \<open>costs g p x\<close>: the nodes \<open>p\<close> are a walk of the store along which some choice of edges
  has weights that sum to \<open>x\<close> (two nodes may be joined by several edges).
\<close>

fun costs :: "graph \<Rightarrow> string list \<Rightarrow> int \<Rightarrow> bool" where
  "costs g [] x = False"
| "costs g [v] x = (x = 0)"
| "costs g (u # v # p) x = (\<exists>e \<in> set (adjacent g u). fst e = v \<and> costs g (v # p) (x - snd e))"

text \<open>Two lines with no station in common, and the graph built from them.\<close>

definition metro_apart :: "row list" where
  "metro_apart = [(''A'', ''L1''), (''B'', ''L1''), (''X'', ''L2''), (''Y'', ''L2'')]"

definition metro_apart_graph :: graph where
  "metro_apart_graph =
     \<lparr>nodes = [(''A (L1)'', \<lparr>name = ''A'', line = ''L1''\<rparr>),
               (''B (L1)'', \<lparr>name = ''B'', line = ''L1''\<rparr>),
               (''X (L2)'', \<lparr>name = ''X'', line = ''L2''\<rparr>),
               (''Y (L2)'', \<lparr>name = ''Y'', line = ''L2''\<rparr>)],
      edges = [(''A (L1)'', [(''B (L1)'', 2)]),
               (''B (L1)'', [(''A (L1)'', 2)]),
               (''X (L2)'', [(''Y (L2)'', 3)]),
               (''Y (L2)'', [(''X (L2)'', 3)])]\<rparr>"

section \<open>Properties\<close>

lemma for_each_append:
  "for_each body (xs @ ys) s =
     (case for_each body xs s of Inl e \<Rightarrow> Inl e | Inr s' \<Rightarrow> for_each body ys s')"
  by (induction xs arbitrary: s) (auto split: sum.splits)

lemma for_each_map: "for_each body (map h xs) = for_each (\<lambda>x. body (h x)) xs"
proof
  show "for_each body (map h xs) s = for_each (\<lambda>x. body (h x)) xs s" for s
    by (induction xs arbitrary: s) (auto split: sum.splits)
qed

lemma for_each_concat:
  "for_each (\<lambda>x. for_each body (h x)) xs s = for_each body (concat (map h xs)) s"
  by (induction xs arbitrary: s) (auto simp: for_each_append split: sum.splits)

lemma for_each_cong:
  "(\<And>x s. x \<in> set xs \<Longrightarrow> body x s = body' x s) \<Longrightarrow> for_each body xs s = for_each body' xs s"
  by (induction xs arbitrary: s) (auto split: sum.splits)

lemma add_connection_ok:
  assumes "a \<in> fst ` set (edges g)" and "b \<in> fst ` set (edges g)"
  shows "\<exists>g'. add_connection g a b t = Inr g' \<and> nodes g' = nodes g \<and>
           map fst (edges g') = map fst (edges g) \<and>
           (\<forall>v. adjacent g' v = adjacent g v @ entries [(a, b, t)] v)"
proof -
  from assms(1) obtain la where la: "map_of (edges g) a = Some la"
    by (metis domD dom_map_of_conv_image_fst)
  define e1 where "e1 = AList.update a (la @ [(b, t)]) (edges g)"
  have k1: "map fst e1 = map fst (edges g)"
    using assms(1) by (simp add: e1_def update_keys)
  have "b \<in> fst ` set e1" using assms(2) k1 by (metis set_map)
  then obtain lb where lb: "map_of e1 b = Some lb"
    by (metis domD dom_map_of_conv_image_fst)
  define e2 where "e2 = AList.update b (lb @ [(a, t)]) e1"
  have k2: "map fst e2 = map fst (edges g)"
    using assms(2) k1 by (simp add: e2_def update_keys)
  have r: "add_connection g a b t = Inr (g\<lparr>edges := e2\<rparr>)"
    using la lb by (simp add: add_connection_def e1_def e2_def)
  have "adjacent (g\<lparr>edges := e2\<rparr>) v = adjacent g v @ entries [(a, b, t)] v" for v
    using la lb
    by (auto simp: adjacent_def entries_def e2_def e1_def update_conv' split: if_splits)
  with r k2 show ?thesis by simp
qed

lemma entries_append: "entries (xs @ ys) v = entries xs v @ entries ys v"
  by (simp add: entries_def)

lemma entries_Cons: "entries (c # cs) v = entries [c] v @ entries cs v"
  by (simp add: entries_def)

lemma add_connections_ok:
  assumes "\<forall>c \<in> set cs. fst c \<in> fst ` set (edges g) \<and> fst (snd c) \<in> fst ` set (edges g)"
  shows "\<exists>g'. add_connections cs g = Inr g' \<and> nodes g' = nodes g \<and>
           map fst (edges g') = map fst (edges g) \<and>
           (\<forall>v. adjacent g' v = adjacent g v @ entries cs v)"
  using assms
proof (induction cs arbitrary: g)
  case Nil
  then show ?case by (simp add: add_connections_def entries_def)
next
  case (Cons c cs)
  obtain a b t where c: "c = (a, b, t)" by (cases c) auto
  from Cons.prems c have "a \<in> fst ` set (edges g)" "b \<in> fst ` set (edges g)" by auto
  from add_connection_ok[OF this, of t] obtain g1 where
    g1: "add_connection g a b t = Inr g1" "nodes g1 = nodes g"
      "map fst (edges g1) = map fst (edges g)"
      "\<forall>v. adjacent g1 v = adjacent g v @ entries [(a, b, t)] v" by blast
  have "fst ` set (edges g1) = fst ` set (edges g)" using g1(3) by (metis set_map)
  with Cons.prems have
    "\<forall>c \<in> set cs. fst c \<in> fst ` set (edges g1) \<and> fst (snd c) \<in> fst ` set (edges g1)" by simp
  from Cons.IH[OF this] obtain g' where
    g': "add_connections cs g1 = Inr g'" "nodes g' = nodes g1"
      "map fst (edges g') = map fst (edges g1)"
      "\<forall>v. adjacent g' v = adjacent g1 v @ entries cs v" by blast
  have "add_connections (c # cs) g = Inr g'"
    using g1(1) g'(1) c by (simp add: add_connections_def)
  moreover have "\<forall>v. adjacent g' v = adjacent g v @ entries (c # cs) v"
    using g1(4) g'(4) c entries_Cons[of c cs] by simp
  ultimately show ?case using g1 g' by simp
qed

lemma add_connections_append:
  "add_connections (xs @ ys) g =
     (case add_connections xs g of Inl e \<Rightarrow> Inl e | Inr g' \<Rightarrow> add_connections ys g')"
  unfolding add_connections_def by (rule for_each_append)

lemma add_connections_single: "add_connections [c] g = add_connection g (fst c) (fst (snd c)) (snd (snd c))"
  by (simp add: add_connections_def split: sum.splits)

lemma connect_pairs_upto:
  "for_each (connect_pair rnd ln sts) [0..<n] (g, c) =
     (case add_connections
             (map (\<lambda>i. (station_id \<lparr>name = Station (sts ! i), line = ln\<rparr>,
                        station_id \<lparr>name = Station (sts ! (i + 1)), line = ln\<rparr>,
                        randint 2 8 (rnd (c + i)))) [0..<n]) g of
        Inl e \<Rightarrow> Inl e | Inr g' \<Rightarrow> Inr (g', c + n))"
proof (induction n)
  case 0
  then show ?case by (simp add: add_connections_def)
next
  case (Suc n)
  let ?f = "\<lambda>i. (station_id \<lparr>name = Station (sts ! i), line = ln\<rparr>,
                  station_id \<lparr>name = Station (sts ! (i + 1)), line = ln\<rparr>,
                  randint 2 8 (rnd (c + i)))"
  show ?case
  proof (cases "add_connections (map ?f [0..<n]) g")
    case (Inl e)
    then show ?thesis using Suc by (simp add: for_each_append add_connections_append)
  next
    case (Inr g')
    then show ?thesis using Suc
      by (simp add: for_each_append add_connections_append add_connections_single
          connect_pair_def split: sum.splits)
  qed
qed

lemma connect_line_calls:
  "connect_line rnd (ln, grp) (g, c) =
     (case add_connections (line_calls rnd ln (map Station (sort_values grp)) c) g of
        Inl e \<Rightarrow> Inl e | Inr g' \<Rightarrow> Inr (g', c + (length grp - 1)))"
proof -
  have len: "length (sort_values grp) = length grp" by (simp add: sort_values_def)
  have "map (\<lambda>i. (station_id \<lparr>name = Station (sort_values grp ! i), line = ln\<rparr>,
                   station_id \<lparr>name = Station (sort_values grp ! (i + 1)), line = ln\<rparr>,
                   randint 2 8 (rnd (c + i)))) [0..<length grp - 1]
        = line_calls rnd ln (map Station (sort_values grp)) c"
    by (simp add: line_calls_def len)
  then show ?thesis
    by (simp add: connect_line_def connect_pairs_upto len Let_def split: sum.splits)
qed

lemma connect_lines_calls:
  "for_each (connect_line rnd) groups (g, c) =
     (case add_connections (concat (map snd (lines_calls rnd groups c))) g of
        Inl e \<Rightarrow> Inl e
      | Inr g' \<Rightarrow> Inr (g', c + sum_list (map (\<lambda>lg. length (snd lg) - 1) groups)))"
proof (induction groups arbitrary: g c)
  case Nil
  then show ?case by (simp add: add_connections_def)
next
  case (Cons lg groups)
  obtain ln grp where lg: "lg = (ln, grp)" by (cases lg) auto
  show ?case
    by (simp add: lg connect_line_calls add_connections_append Cons add.assoc split: sum.splits)
qed

lemma add_transfer_calls:
  "add_transfer (nm, grp) g = add_connections (transfer_calls nm (map Line grp)) g"
proof -
  have tp: "transfer_pair nm lines i =
        (\<lambda>j g. add_connection g (nm @ '' ('' @ lines ! i @ '')'')
                 (nm @ '' ('' @ lines ! j @ '')'') 5)" for lines i
    by (intro ext) (simp add: transfer_pair_def)
  show ?thesis
    by (simp add: add_transfer_def transfer_calls_def add_connections_def
        for_each_concat[symmetric] for_each_map tp)
qed

lemma add_transfers_calls:
  "add_transfers df g = add_connections (concat (map snd (stations_calls df))) g"
proof -
  have "for_each add_transfer groups g =
        add_connections
          (concat (map (\<lambda>sg. transfer_calls (fst sg) (map Line (snd sg))) groups)) g"
    for groups
  proof (induction groups arbitrary: g)
    case Nil
    then show ?case by (simp add: add_connections_def)
  next
    case (Cons sg groups)
    obtain nm grp where sg: "sg = (nm, grp)" by (cases sg) auto
    show ?case
      by (simp add: sg add_transfer_calls add_connections_append Cons split: sum.splits)
  qed
  then show ?thesis
    by (simp add: add_transfers_def stations_calls_def comp_def)
qed

lemma build_graph_calls:
  "build_graph df rnd = add_connections (build_calls df rnd) (add_stations df Graph)"
  by (simp add: build_graph_def connect_lines_def connect_lines_calls add_transfers_calls
      build_calls_def add_connections_append split: sum.splits)

lemma row_id_eq: "row_id r = Station r @ '' ('' @ Line r @ '')''"
  by (simp add: row_id_def station_id_def)

lemma add_stations_keys:
  "map fst (nodes g) = map fst (edges g) \<Longrightarrow>
   map fst (nodes (add_stations df g)) = map fst (edges (add_stations df g))"
  unfolding add_stations_def
  by (induction df arbitrary: g) (simp_all add: add_station_def update_keys)

lemma add_stations_key_set:
  "fst ` set (edges (add_stations df g)) = fst ` set (edges g) \<union> row_id ` set df"
  unfolding add_stations_def
  by (induction df arbitrary: g) (auto simp: add_station_def dom_update row_id_def)

lemma add_stations_distinct:
  "distinct (map fst (nodes g)) \<Longrightarrow> distinct (map fst (nodes (add_stations df g)))"
  unfolding add_stations_def
  by (induction df arbitrary: g) (simp_all add: add_station_def distinct_update)

lemma add_stations_empty:
  "(\<forall>v. adjacent g v = []) \<Longrightarrow> adjacent (add_stations df g) v = []"
  unfolding add_stations_def
  by (induction df arbitrary: g) (simp_all add: add_station_def adjacent_def update_conv')

lemma groupby_member:
  "(k, grp) \<in> set (groupby col df) \<Longrightarrow> grp = filter (\<lambda>r. col r = k) df \<and> k \<in> col ` set df"
  by (auto simp: groupby_def)

lemma line_calls_endpoints:
  assumes "\<forall>r \<in> set grp. Line r = ln \<and> r \<in> set df"
    and "c \<in> set (line_calls rnd ln (map Station (sort_values grp)) drawn)"
  shows "fst c \<in> row_id ` set df \<and> fst (snd c) \<in> row_id ` set df"
proof -
  let ?sts = "sort_values grp"
  have set_sts: "set ?sts = set grp" by (simp add: sort_values_def)
  from assms(2) obtain i where i: "i < length ?sts - 1"
    and c: "c = (station_id \<lparr>name = map Station ?sts ! i, line = ln\<rparr>,
                 station_id \<lparr>name = map Station ?sts ! (i + 1), line = ln\<rparr>,
                 randint 2 8 (rnd (drawn + i)))"
    by (auto simp: line_calls_def)
  from i have m: "?sts ! i \<in> set grp" "?sts ! (i + 1) \<in> set grp"
    using set_sts nth_mem[of i ?sts] nth_mem[of "i + 1" ?sts] by auto
  then have "row_id (?sts ! i) = station_id \<lparr>name = Station (?sts ! i), line = ln\<rparr>"
    "row_id (?sts ! (i + 1)) = station_id \<lparr>name = Station (?sts ! (i + 1)), line = ln\<rparr>"
    using assms(1) by (auto simp: row_id_def)
  moreover have "?sts ! i \<in> set df" "?sts ! (i + 1) \<in> set df" using m assms(1) by auto
  ultimately have "fst c = row_id (?sts ! i)" "fst (snd c) = row_id (?sts ! (i + 1))"
    "?sts ! i \<in> set df" "?sts ! (i + 1) \<in> set df"
    using c i by simp_all
  then show ?thesis by (metis imageI)
qed

lemma lines_calls_endpoints:
  assumes "\<forall>lg \<in> set groups. \<forall>r \<in> set (snd lg). Line r = fst lg \<and> r \<in> set df"
    and "c \<in> set (concat (map snd (lines_calls rnd groups drawn)))"
  shows "fst c \<in> row_id ` set df \<and> fst (snd c) \<in> row_id ` set df"
  using assms
proof (induction groups arbitrary: drawn)
  case Nil
  then show ?case by simp
next
  case (Cons lg groups)
  from Cons.prems(2) consider
    "c \<in> set (line_calls rnd (fst lg) (map Station (sort_values (snd lg))) drawn)"
    | "c \<in> set (concat (map snd (lines_calls rnd groups (drawn + (length (snd lg) - 1)))))"
    by auto
  then show ?case
  proof cases
    case 1
    with Cons.prems(1) line_calls_endpoints[of "snd lg" "fst lg" df c rnd drawn]
    show ?thesis by simp
  next
    case 2
    with Cons.IH Cons.prems(1) show ?thesis by simp
  qed
qed

lemma transfer_calls_endpoints:
  assumes "\<forall>r \<in> set grp. Station r = nm \<and> r \<in> set df"
    and "c \<in> set (transfer_calls nm (map Line grp))"
  shows "fst c \<in> row_id ` set df \<and> fst (snd c) \<in> row_id ` set df"
proof -
  from assms(2) have "\<exists>i j. i < j \<and> j < length grp \<and>
      c = (nm @ '' ('' @ Line (grp ! i) @ '')'', nm @ '' ('' @ Line (grp ! j) @ '')'', 5)"
    unfolding transfer_calls_def by (auto simp: Suc_le_eq) blast
  then obtain i j where ij: "i < j" "j < length grp"
    and c: "c = (nm @ '' ('' @ Line (grp ! i) @ '')'', nm @ '' ('' @ Line (grp ! j) @ '')'', 5)"
    by blast
  have "row_id (grp ! i) = nm @ '' ('' @ Line (grp ! i) @ '')''"
    "row_id (grp ! j) = nm @ '' ('' @ Line (grp ! j) @ '')''"
    using assms(1) ij by (auto simp: row_id_eq)
  moreover have "grp ! i \<in> set df" "grp ! j \<in> set df" using assms(1) ij by auto
  ultimately have "fst c = row_id (grp ! i)" "fst (snd c) = row_id (grp ! j)"
    "grp ! i \<in> set df" "grp ! j \<in> set df"
    using c ij by simp_all
  then show ?thesis by (metis imageI)
qed

lemma build_calls_endpoints:
  assumes "c \<in> set (build_calls df rnd)"
  shows "fst c \<in> row_id ` set df \<and> fst (snd c) \<in> row_id ` set df"
proof -
  from assms consider "c \<in> set (concat (map snd (lines_calls rnd (groupby Line df) 0)))"
    | "c \<in> set (concat (map snd (stations_calls df)))"
    by (auto simp: build_calls_def)
  then show ?thesis
  proof cases
    case 1
    have "\<forall>lg \<in> set (groupby Line df). \<forall>r \<in> set (snd lg). Line r = fst lg \<and> r \<in> set df"
      by (auto simp: groupby_def)
    from lines_calls_endpoints[OF this 1] show ?thesis .
  next
    case 2
    then obtain sg where sg: "sg \<in> set (groupby Station df)"
      and c: "c \<in> set (transfer_calls (fst sg) (map Line (snd sg)))"
      by (auto simp: stations_calls_def)
    from sg have "\<forall>r \<in> set (snd sg). Station r = fst sg \<and> r \<in> set df"
      by (auto simp: groupby_def)
    from transfer_calls_endpoints[OF this c] show ?thesis .
  qed
qed

lemma build_graph_ok:
  "\<exists>g. build_graph df rnd = Inr g \<and>
       distinct (map fst (nodes g)) \<and>
       map fst (edges g) = map fst (nodes g) \<and>
       fst ` set (nodes g) = row_id ` set df \<and>
       (\<forall>v. adjacent g v = entries (build_calls df rnd) v)"
proof -
  let ?g0 = "add_stations df Graph"
  have keys: "fst ` set (edges ?g0) = row_id ` set df"
    by (simp add: add_stations_key_set Graph_def)
  have same: "map fst (nodes ?g0) = map fst (edges ?g0)"
    by (rule add_stations_keys) (simp add: Graph_def)
  have dist: "distinct (map fst (nodes ?g0))"
    by (rule add_stations_distinct) (simp add: Graph_def)
  have empty: "adjacent ?g0 v = []" for v
    by (rule add_stations_empty) (simp add: Graph_def adjacent_def)
  have "\<forall>c \<in> set (build_calls df rnd).
          fst c \<in> fst ` set (edges ?g0) \<and> fst (snd c) \<in> fst ` set (edges ?g0)"
    using build_calls_endpoints keys by blast
  from add_connections_ok[OF this] obtain g where
    g: "add_connections (build_calls df rnd) ?g0 = Inr g" "nodes g = nodes ?g0"
      "map fst (edges g) = map fst (edges ?g0)"
      "\<forall>v. adjacent g v = adjacent ?g0 v @ entries (build_calls df rnd) v" by blast
  have "fst ` set (nodes g) = row_id ` set df"
    using g(2) same keys by (metis set_map)
  with g same dist empty show ?thesis
    by (simp add: build_graph_calls)
qed

lemma entries_member:
  "(b, w) \<in> set (entries cs a) \<longleftrightarrow> (a, b, w) \<in> set cs \<or> (b, a, w) \<in> set cs"
proof (induction cs)
  case Nil
  then show ?case by (simp add: entries_def)
next
  case (Cons c cs)
  obtain x y t where c: "c = (x, y, t)" by (cases c) auto
  have "(b, w) \<in> set (entries [c] a) \<longleftrightarrow> (a, b, w) = c \<or> (b, a, w) = c"
    by (auto simp: entries_def c)
  with Cons entries_Cons[of c cs a] show ?case by auto
qed

lemma entries_symmetric: "(b, w) \<in> set (entries cs a) \<Longrightarrow> (a, w) \<in> set (entries cs b)"
  by (auto simp: entries_member)

lemma adjacent_member:
  "(b, w) \<in> set (adjacent g a) \<longleftrightarrow> (\<exists>nbrs. map_of (edges g) a = Some nbrs \<and> (b, w) \<in> set nbrs)"
  by (cases "map_of (edges g) a") (auto simp: adjacent_def)

text \<open>
  Claim C3. In every graph store that \<open>build_graph\<close> returns the edges are symmetric:
  when the adjacency list of \<open>a\<close> holds \<open>(b, w)\<close>, the adjacency list of \<open>b\<close> holds
  \<open>(a, w)\<close>, with the same weight.
\<close>

theorem build_graph_symmetric:
  assumes "build_graph df rnd = Inr g"
    and "map_of (edges g) a = Some nbrs" and "(b, w) \<in> set nbrs"
  shows "\<exists>nbrs'. map_of (edges g) b = Some nbrs' \<and> (a, w) \<in> set nbrs'"
proof -
  from build_graph_ok[of df rnd] assms(1)
  have adj: "\<forall>v. adjacent g v = entries (build_calls df rnd) v" by auto
  from assms(2,3) have "(b, w) \<in> set (adjacent g a)" by (auto simp: adjacent_member)
  then have "(a, w) \<in> set (adjacent g b)" using adj entries_symmetric by simp
  then show ?thesis by (simp add: adjacent_member)
qed

theorem build_graph_symmetric_witness:
  "build_graph metro2 (\<lambda>i. i) =
    Inr \<lparr>nodes = [(''A (L)'', \<lparr>name = ''A'', line = ''L''\<rparr>), (''B (L)'', \<lparr>name = ''B'', line = ''L''\<rparr>)],
         edges = [(''A (L)'', [(''B (L)'', 2)]), (''B (L)'', [(''A (L)'', 2)])]\<rparr> \<and>
   (\<exists>g nbrs'. build_graph metro2 (\<lambda>i. i) = Inr g \<and>
      map_of (edges g) ''A (L)'' = Some [(''B (L)'', 2)] \<and>
      map_of (edges g) ''B (L)'' = Some nbrs' \<and> (''A (L)'', 2) \<in> set nbrs')"
proof -
  let ?g = "\<lparr>nodes = [(''A (L)'', \<lparr>name = ''A'', line = ''L''\<rparr>), (''B (L)'', \<lparr>name = ''B'', line = ''L''\<rparr>)],
         edges = [(''A (L)'', [(''B (L)'', 2::int)]), (''B (L)'', [(''A (L)'', 2)])]\<rparr>"
  have b: "build_graph metro2 (\<lambda>i. i) = Inr ?g" by code_simp
  have m: "map_of (edges ?g) ''A (L)'' = Some [(''B (L)'', 2)]" by simp
  have e: "(''B (L)'', 2) \<in> set [(''B (L)'', 2::int)]" by simp
  from build_graph_symmetric[OF b m e] b m show ?thesis by blast
qed

lemma build_passes:
  "\<exists>g2 drawn g.
     connect_lines rnd df (add_stations df Graph, 0) = Inr (g2, drawn) \<and>
     (\<forall>v. adjacent g2 v = entries (concat (map snd (lines_calls rnd (groupby Line df) 0))) v) \<and>
     add_transfers df g2 = Inr g \<and>
     (\<forall>v. adjacent g v = adjacent g2 v @ entries (concat (map snd (stations_calls df))) v) \<and>
     build_graph df rnd = Inr g"
proof -
  let ?g0 = "add_stations df Graph"
  let ?lc = "concat (map snd (lines_calls rnd (groupby Line df) 0))"
  let ?tc = "concat (map snd (stations_calls df))"
  have keys: "fst ` set (edges ?g0) = row_id ` set df"
    by (simp add: add_stations_key_set Graph_def)
  have empty: "adjacent ?g0 v = []" for v
    by (rule add_stations_empty) (simp add: Graph_def adjacent_def)
  have ends: "\<forall>c \<in> set (?lc @ ?tc). fst c \<in> row_id ` set df \<and> fst (snd c) \<in> row_id ` set df"
    using build_calls_endpoints[of _ df rnd] by (simp add: build_calls_def)
  then have "\<forall>c \<in> set ?lc. fst c \<in> fst ` set (edges ?g0) \<and> fst (snd c) \<in> fst ` set (edges ?g0)"
    using keys by auto
  from add_connections_ok[OF this] obtain g2 where
    g2: "add_connections ?lc ?g0 = Inr g2" "map fst (edges g2) = map fst (edges ?g0)"
      "\<forall>v. adjacent g2 v = adjacent ?g0 v @ entries ?lc v" by blast
  have "fst ` set (edges g2) = row_id ` set df" using g2(2) keys by (metis set_map)
  with ends have "\<forall>c \<in> set ?tc. fst c \<in> fst ` set (edges g2) \<and> fst (snd c) \<in> fst ` set (edges g2)"
    by auto
  from add_connections_ok[OF this] obtain g where
    g: "add_connections ?tc g2 = Inr g" "\<forall>v. adjacent g v = adjacent g2 v @ entries ?tc v"
    by blast
  have p2: "connect_lines rnd df (?g0, 0) =
      Inr (g2, 0 + sum_list (map (\<lambda>lg. length (snd lg) - 1) (groupby Line df)))"
    using g2(1) by (simp add: connect_lines_def connect_lines_calls)
  have p3: "add_transfers df g2 = Inr g" using g(1) by (simp add: add_transfers_calls)
  have "build_graph df rnd = Inr g" using p2 p3 by (simp add: build_graph_def)
  with p2 p3 g2(3) g(2) empty show ?thesis by auto
qed

lemma count_list_insort_key:
  "count_list (insort_key f a xs) x = count_list (a # xs) x"
  by (induction xs) auto

lemma count_list_sort_key: "count_list (sort_key f xs) x = count_list xs x"
  by (induction xs) (auto simp: count_list_insort_key)

lemma count_list_map_le: "count_list xs x \<le> count_list (map f xs) (f x)"
  by (induction xs) auto

lemma count_list_filter: "P x \<Longrightarrow> count_list (filter P xs) x = count_list xs x"
  by (induction xs) auto

lemma count_list_two_positions:
  assumes "2 \<le> count_list xs x"
  shows "\<exists>p q. p < q \<and> q < length xs \<and> xs ! p = x \<and> xs ! q = x"
proof -
  from assms have "x \<in> set xs" by (metis count_list_0_iff not_numeral_le_zero)
  then obtain ys zs where s: "xs = ys @ x # zs" "x \<notin> set ys" by (meson split_list_first)
  then have "count_list zs x \<ge> 1" using assms by (simp add: count_list_0_iff)
  then have "x \<in> set zs" by (metis count_list_0_iff not_one_le_zero)
  then obtain k where k: "k < length zs" "zs ! k = x" by (meson in_set_conv_nth)
  have "xs ! length ys = x" using s by simp
  moreover have "xs ! (length ys + Suc k) = x" using s k by (simp add: nth_append)
  moreover have "length ys + Suc k < length xs" using s k by simp
  moreover have "length ys < length ys + Suc k" by simp
  ultimately show ?thesis by blast
qed

lemma sorted_adjacent_equal:
  assumes "sorted xs" "p < q" "q < length xs" "xs ! p = x" "xs ! q = x"
  shows "xs ! Suc p = x"
proof -
  have "p \<le> Suc p" "Suc p < length xs" "Suc p \<le> q" using assms by simp_all
  then have "xs ! p \<le> xs ! Suc p" "xs ! Suc p \<le> xs ! q"
    using assms(1,3) by (meson sorted_iff_nth_mono)+
  then show ?thesis using assms by simp
qed

lemma randint_range: "2 \<le> randint 2 8 r \<and> randint 2 8 r \<le> 8"
  by (simp add: randint_def)

lemma groupby_has:
  "r \<in> set df \<Longrightarrow> (col r, filter (\<lambda>x. col x = col r) df) \<in> set (groupby col df)"
  by (auto simp: groupby_def)

lemma lines_calls_member:
  "lg \<in> set groups \<Longrightarrow>
   \<exists>c. (fst lg, line_calls rnd (fst lg) (map Station (sort_values (snd lg))) c)
        \<in> set (lines_calls rnd groups c0)"
proof (induction groups arbitrary: c0)
  case Nil
  then show ?case by simp
next
  case (Cons a groups)
  show ?case
  proof (cases "lg = a")
    case True
    then show ?thesis by auto
  next
    case False
    with Cons.prems have "lg \<in> set groups" by simp
    from Cons.IH[OF this, of "c0 + (length (snd a) - 1)"] show ?thesis by auto
  qed
qed

lemma line_calls_duplicate:
  assumes "2 \<le> count_list grp (n, l)"
  shows "\<exists>p. (station_id \<lparr>name = n, line = l\<rparr>, station_id \<lparr>name = n, line = l\<rparr>,
               randint 2 8 (rnd (c + p)))
             \<in> set (line_calls rnd l (map Station (sort_values grp)) c)"
proof -
  let ?names = "map Station (sort_values grp)"
  have "count_list grp (n, l) \<le> count_list ?names (Station (n, l))"
    using count_list_map_le[of "sort_values grp" "(n, l)" Station]
    by (simp add: sort_values_def count_list_sort_key)
  with assms have "2 \<le> count_list ?names n" by (simp add: Station_def)
  from count_list_two_positions[OF this] obtain p q where
    pq: "p < q" "q < length ?names" "?names ! p = n" "?names ! q = n" by blast
  have "sorted ?names" by (simp add: sort_values_def)
  from sorted_adjacent_equal[OF this pq] have "?names ! (p + 1) = n" by simp
  moreover have "p < length ?names - 1" using pq by simp
  ultimately show ?thesis using pq(3) unfolding line_calls_def
    by (intro exI[of _ p]) (auto simp: image_iff intro!: bexI[of _ p])
qed

lemma transfer_calls_member:
  assumes "i < j" "j < length lines"
  shows "(nm @ '' ('' @ lines ! i @ '')'', nm @ '' ('' @ lines ! j @ '')'', 5)
           \<in> set (transfer_calls nm lines)"
proof -
  have i: "i \<in> set [0..<length lines]" and j: "j \<in> set [i + 1..<length lines]"
    using assms by auto
  let ?row = "\<lambda>i. map (\<lambda>j. (nm @ '' ('' @ lines ! i @ '')'',
                              nm @ '' ('' @ lines ! j @ '')'', 5::int)) [i + 1..<length lines]"
  have "(nm @ '' ('' @ lines ! i @ '')'', nm @ '' ('' @ lines ! j @ '')'', 5) \<in> set (?row i)"
    unfolding set_map using j by (rule rev_image_eqI) simp
  moreover have "?row i \<in> set (map ?row [0..<length lines])"
    unfolding set_map using i by (rule imageI)
  ultimately show ?thesis unfolding transfer_calls_def set_concat by blast
qed

lemma transfer_calls_duplicate:
  assumes "2 \<le> count_list lines l"
  shows "(n @ '' ('' @ l @ '')'', n @ '' ('' @ l @ '')'', 5) \<in> set (transfer_calls n lines)"
proof -
  from count_list_two_positions[OF assms] obtain p q where
    pq: "p < q" "q < length lines" "lines ! p = l" "lines ! q = l" by blast
  from transfer_calls_member[OF pq(1,2), of n] pq(3,4) show ?thesis by simp
qed

text \<open>
  Claim C10. When the rows hold the same (station, line) pair twice, the builder puts
  self-loops on that node: the pass over the lines leaves, in a store that held no edge
  before it, an entry from the node to itself with a drawn weight between 2 and 8, and
  the pass over the stations appends to the node's adjacency list an entry to itself of
  weight 5.
\<close>

theorem duplicate_row_self_loops:
  assumes "2 \<le> count_list df (n, l)"
  shows "\<exists>g2 drawn g w added.
           adjacent (add_stations df Graph) (station_id \<lparr>name = n, line = l\<rparr>) = [] \<and>
           connect_lines rnd df (add_stations df Graph, 0) = Inr (g2, drawn) \<and>
           2 \<le> w \<and> w \<le> 8 \<and>
           (station_id \<lparr>name = n, line = l\<rparr>, w)
             \<in> set (adjacent g2 (station_id \<lparr>name = n, line = l\<rparr>)) \<and>
           add_transfers df g2 = Inr g \<and>
           build_graph df rnd = Inr g \<and>
           adjacent g (station_id \<lparr>name = n, line = l\<rparr>) =
             adjacent g2 (station_id \<lparr>name = n, line = l\<rparr>) @ added \<and>
           (station_id \<lparr>name = n, line = l\<rparr>, 5) \<in> set added"
proof -
  let ?v = "station_id \<lparr>name = n, line = l\<rparr>"
  let ?lc = "concat (map snd (lines_calls rnd (groupby Line df) 0))"
  let ?tc = "concat (map snd (stations_calls df))"
  from assms have mem: "(n, l) \<in> set df" by (metis count_list_0_iff not_numeral_le_zero)
  from build_passes[of rnd df] obtain g2 drawn g where
    p: "connect_lines rnd df (add_stations df Graph, 0) = Inr (g2, drawn)"
      "\<forall>v. adjacent g2 v = entries ?lc v"
      "add_transfers df g2 = Inr g"
      "\<forall>v. adjacent g v = adjacent g2 v @ entries ?tc v"
      "build_graph df rnd = Inr g" by blast
  have empty: "adjacent (add_stations df Graph) ?v = []"
    by (rule add_stations_empty) (simp add: Graph_def adjacent_def)
  \<comment> \<open>the pass over the lines\<close>
  let ?grp = "filter (\<lambda>x. Line x = l) df"
  have "(l, ?grp) \<in> set (groupby Line df)"
    using groupby_has[OF mem, of Line] by (simp add: Line_def)
  from lines_calls_member[OF this, of rnd 0] obtain c where
    c: "(l, line_calls rnd l (map Station (sort_values ?grp)) c)
          \<in> set (lines_calls rnd (groupby Line df) 0)" by auto
  have "2 \<le> count_list ?grp (n, l)"
    using assms by (simp add: count_list_filter Line_def)
  from line_calls_duplicate[OF this, of rnd c] obtain k where
    "(?v, ?v, randint 2 8 (rnd (c + k))) \<in> set (line_calls rnd l (map Station (sort_values ?grp)) c)"
    by blast
  with c have "(?v, ?v, randint 2 8 (rnd (c + k))) \<in> set ?lc" by force
  then have w: "(?v, randint 2 8 (rnd (c + k))) \<in> set (adjacent g2 ?v)"
    using p(2) by (simp add: entries_member)
  \<comment> \<open>the pass over the stations\<close>
  let ?sgrp = "filter (\<lambda>x. Station x = n) df"
  have sg: "(n, ?sgrp) \<in> set (groupby Station df)"
    using groupby_has[OF mem, of Station] by (simp add: Station_def)
  have "count_list ?sgrp (n, l) \<le> count_list (map Line ?sgrp) (Line (n, l))"
    by (rule count_list_map_le)
  then have "2 \<le> count_list (map Line ?sgrp) l"
    using assms by (simp add: count_list_filter Station_def Line_def)
  from transfer_calls_duplicate[OF this, of n]
  have "(?v, ?v, 5) \<in> set (transfer_calls n (map Line ?sgrp))" by (simp add: station_id_def)
  with sg have "(?v, ?v, 5) \<in> set ?tc" by (force simp: stations_calls_def)
  then have t: "(?v, 5) \<in> set (entries ?tc ?v)" by (simp add: entries_member)
  from p empty w t randint_range[of "rnd (c + k)"] show ?thesis by blast
qed

theorem duplicate_row_self_loops_witness:
  "2 \<le> count_list metro_twice (''A'', ''L'') \<and>
   build_graph metro_twice (\<lambda>i. i) =
     Inr \<lparr>nodes = [(''A (L)'', \<lparr>name = ''A'', line = ''L''\<rparr>)],
          edges = [(''A (L)'', [(''A (L)'', 2), (''A (L)'', 2), (''A (L)'', 5), (''A (L)'', 5)])]\<rparr> \<and>
   (\<exists>g2 drawn g w added.
      connect_lines (\<lambda>i. i) metro_twice (add_stations metro_twice Graph, 0) = Inr (g2, drawn) \<and>
      2 \<le> w \<and> w \<le> 8 \<and>
      (''A (L)'', w) \<in> set (adjacent g2 ''A (L)'') \<and>
      build_graph metro_twice (\<lambda>i. i) = Inr g \<and>
      adjacent g ''A (L)'' = adjacent g2 ''A (L)'' @ added \<and>
      (''A (L)'', 5) \<in> set added)"
proof -
  have h: "2 \<le> count_list metro_twice (''A'', ''L'')" by (simp add: metro_twice_def)
  have b: "build_graph metro_twice (\<lambda>i. i) =
     Inr \<lparr>nodes = [(''A (L)'', \<lparr>name = ''A'', line = ''L''\<rparr>)],
          edges = [(''A (L)'', [(''A (L)'', 2), (''A (L)'', 2), (''A (L)'', 5), (''A (L)'', 5)])]\<rparr>"
    by code_simp
  have s: "station_id \<lparr>name = ''A'', line = ''L''\<rparr> = ''A (L)''" by (simp add: station_id_def)
  from duplicate_row_self_loops[OF h, of "\<lambda>i. i"] h b show ?thesis
    unfolding s by blast
qed

text \<open>
  Claim C7. The candidates of a query name are exactly the node identifiers that begin
  with it; so, in a built graph, every row whose station name begins with the query name
  has its node among the candidates, whether or not the station is the one asked for.
\<close>

theorem candidates_by_prefix:
  assumes "build_graph df rnd = Inr g"
  shows "candidates g nm = filter (prefix nm) (map fst (nodes g)) \<and>
         set (candidates g nm) = {sid. sid \<in> fst ` set (nodes g) \<and> prefix nm sid} \<and>
         set (candidates g nm) =
           {station_id \<lparr>name = n, line = l\<rparr> | n l.
              (n, l) \<in> set df \<and> prefix nm (station_id \<lparr>name = n, line = l\<rparr>)} \<and>
         (\<forall>n l. (n, l) \<in> set df \<and> prefix nm n \<longrightarrow>
                  station_id \<lparr>name = n, line = l\<rparr> \<in> set (candidates g nm))"
proof -
  from build_graph_ok[of df rnd] assms
  have keys: "fst ` set (nodes g) = row_id ` set df" by auto
  have c: "candidates g nm = filter (prefix nm) (map fst (nodes g))"
    by (simp add: candidates_def startswith_def)
  have s1: "set (candidates g nm) = {sid. sid \<in> fst ` set (nodes g) \<and> prefix nm sid}"
    unfolding c by auto
  have r: "row_id ` set df = {station_id \<lparr>name = n, line = l\<rparr> | n l. (n, l) \<in> set df}"
    by (force simp: row_id_def Station_def Line_def image_iff)
  have s2: "set (candidates g nm) =
           {station_id \<lparr>name = n, line = l\<rparr> | n l.
              (n, l) \<in> set df \<and> prefix nm (station_id \<lparr>name = n, line = l\<rparr>)}"
    unfolding s1 keys r by blast
  have "station_id \<lparr>name = n, line = l\<rparr> \<in> set (candidates g nm)"
    if "(n, l) \<in> set df" "prefix nm n" for n l
  proof -
    have "prefix nm (station_id \<lparr>name = n, line = l\<rparr>)"
      using that(2) by (simp add: station_id_def prefix_prefix)
    with that(1) show ?thesis unfolding s2 by blast
  qed
  with c s1 s2 show ?thesis by blast
qed

theorem candidates_by_prefix_witness:
  "(\<exists>g. build_graph metro_prefix (\<lambda>i. i) = Inr g \<and>
        candidates g ''Bay'' = [''Bay (L)'', ''Bayfront (L)''])"
proof -
  obtain g where g: "build_graph metro_prefix (\<lambda>i. i) = Inr g"
    using build_graph_ok[of metro_prefix "\<lambda>i. i"] by blast
  have n: "map fst (nodes g) = [''Bay (L)'', ''Bayfront (L)'', ''City (L)'']"
  proof -
    have "map_sum id (\<lambda>g. map fst (nodes g)) (build_graph metro_prefix (\<lambda>i. i)) =
          Inr [''Bay (L)'', ''Bayfront (L)'', ''City (L)'']" by code_simp
    then show ?thesis by (simp add: g)
  qed
  from candidates_by_prefix[OF g, of "''Bay''"]
  have "candidates g ''Bay'' = filter (prefix ''Bay'') (map fst (nodes g))" by blast
  then have "candidates g ''Bay'' = [''Bay (L)'', ''Bayfront (L)'']" by (simp add: n)
  with g show ?thesis by blast
qed

lemma groupby_split:
  assumes "r \<in> set df"
  shows "\<exists>pre post. groupby col df = pre @ [(col r, filter (\<lambda>x. col x = col r) df)] @ post \<and>
           col r \<notin> fst ` set (pre @ post)"
proof -
  let ?keys = "sort (remdups (map col df))"
  let ?F = "\<lambda>k. (k, filter (\<lambda>x. col x = k) df)"
  have d: "distinct ?keys" by simp
  have "col r \<in> set ?keys" using assms by simp
  then obtain ks1 ks2 where ks: "?keys = ks1 @ col r # ks2" by (meson split_list)
  with d have n: "col r \<notin> set ks1 \<union> set ks2" by (metis Un_iff distinct.simps(2) distinct_append
        disjoint_iff list.set_intros(1))
  have "groupby col df = map ?F ks1 @ [?F (col r)] @ map ?F ks2"
    unfolding groupby_def ks by simp
  moreover have "fst ` set (map ?F ks1 @ map ?F ks2) = set ks1 \<union> set ks2"
    by (simp add: image_Un image_image)
  ultimately show ?thesis using n by blast
qed

lemma line_calls_nth:
  "i < length names - 1 \<Longrightarrow>
   line_calls rnd ln names drawn ! i =
     (station_id \<lparr>name = names ! i, line = ln\<rparr>,
      station_id \<lparr>name = names ! (i + 1), line = ln\<rparr>,
      randint 2 8 (rnd (drawn + i)))"
  by (simp add: line_calls_def)

lemma length_line_calls: "length (line_calls rnd ln names drawn) = length names - 1"
  by (simp add: line_calls_def)

lemma transfer_calls_set:
  "set (transfer_calls nm lines) =
     {(nm @ '' ('' @ lines ! i @ '')'', nm @ '' ('' @ lines ! j @ '')'', 5) | i j.
        i < j \<and> j < length lines}"
proof
  show "set (transfer_calls nm lines) \<subseteq>
      {(nm @ '' ('' @ lines ! i @ '')'', nm @ '' ('' @ lines ! j @ '')'', 5) | i j.
        i < j \<and> j < length lines}"
    unfolding transfer_calls_def by (auto simp: Suc_le_eq) blast
  show "{(nm @ '' ('' @ lines ! i @ '')'', nm @ '' ('' @ lines ! j @ '')'', 5) | i j.
        i < j \<and> j < length lines} \<subseteq> set (transfer_calls nm lines)"
    using transfer_calls_member by blast
qed

lemma sum_below: "2 * (\<Sum>i<n. i) = n * (n - 1)" for n :: nat
  by (induction n) (auto simp: algebra_simps)

lemma length_transfer_calls:
  "length (transfer_calls nm lines) = length lines * (length lines - 1) div 2"
proof -
  let ?L = "length lines"
  have "length (transfer_calls nm lines) = sum_list (map (\<lambda>i. ?L - Suc i) [0..<?L])"
    by (simp add: transfer_calls_def length_concat comp_def)
  also have "\<dots> = (\<Sum>i<?L. ?L - Suc i)"
    by (simp add: interv_sum_list_conv_sum_set_nat atLeast0LessThan)
  also have "\<dots> = (\<Sum>i<?L. i)"
    by (rule sum.nat_diff_reindex)
  also have "\<dots> = ?L * (?L - 1) div 2"
    using sum_below[of ?L] by simp
  finally show ?thesis .
qed

lemma station_id_inj:
  "station_id \<lparr>name = n, line = l1\<rparr> = station_id \<lparr>name = n, line = l2\<rparr> \<longleftrightarrow> l1 = l2"
  by (simp add: station_id_def)

lemma transfer_pairs:
  assumes "distinct lines"
  shows "(\<lambda>c. {fst c, fst (snd c)}) ` set (transfer_calls nm lines) =
           {{station_id \<lparr>name = nm, line = l1\<rparr>, station_id \<lparr>name = nm, line = l2\<rparr>} | l1 l2.
              l1 \<in> set lines \<and> l2 \<in> set lines \<and> l1 \<noteq> l2}"
    (is "?lhs = ?rhs")
proof
  show "?lhs \<subseteq> ?rhs"
  proof
    fix B assume "B \<in> ?lhs"
    then obtain i j where ij: "i < j" "j < length lines"
      and B: "B = {nm @ '' ('' @ lines ! i @ '')'', nm @ '' ('' @ lines ! j @ '')''}"
      unfolding transfer_calls_set by auto
    have "lines ! i \<noteq> lines ! j" using assms ij by (simp add: nth_eq_iff_index_eq)
    moreover have "lines ! i \<in> set lines" "lines ! j \<in> set lines" using ij by simp_all
    ultimately show "B \<in> ?rhs" unfolding B station_id_def by (simp, blast)
  qed
  show "?rhs \<subseteq> ?lhs"
  proof
    fix B assume "B \<in> ?rhs"
    then obtain l1 l2 where l: "l1 \<in> set lines" "l2 \<in> set lines" "l1 \<noteq> l2"
      and B: "B = {nm @ '' ('' @ l1 @ '')'', nm @ '' ('' @ l2 @ '')''}"
      by (auto simp: station_id_def)
    from l obtain p q where pq: "p < length lines" "lines ! p = l1" "q < length lines" "lines ! q = l2"
      by (metis in_set_conv_nth)
    with l(3) have "p \<noteq> q" by auto
    then consider "p < q" | "q < p" by linarith
    then show "B \<in> ?lhs"
    proof cases
      case 1
      from transfer_calls_member[OF 1 pq(3), of nm] pq(2,4)
      have "(nm @ '' ('' @ l1 @ '')'', nm @ '' ('' @ l2 @ '')'', 5) \<in> set (transfer_calls nm lines)"
        by simp
      then show ?thesis unfolding B by force
    next
      case 2
      from transfer_calls_member[OF 2 pq(1), of nm] pq(2,4)
      have "(nm @ '' ('' @ l2 @ '')'', nm @ '' ('' @ l1 @ '')'', 5) \<in> set (transfer_calls nm lines)"
        by simp
      then show ?thesis unfolding B by force
    qed
  qed
qed

lemma card_transfer_pairs:
  assumes "distinct lines"
  shows "card {{station_id \<lparr>name = nm, line = l1\<rparr>, station_id \<lparr>name = nm, line = l2\<rparr>} | l1 l2.
              l1 \<in> set lines \<and> l2 \<in> set lines \<and> l1 \<noteq> l2}
         = length lines * (length lines - 1) div 2"
proof -
  let ?sid = "\<lambda>l. station_id \<lparr>name = nm, line = l\<rparr>"
  let ?A = "?sid ` set lines"
  have inj: "inj ?sid" by (simp add: inj_on_def station_id_inj)
  have "{{?sid l1, ?sid l2} | l1 l2. l1 \<in> set lines \<and> l2 \<in> set lines \<and> l1 \<noteq> l2}
        = {B. B \<subseteq> ?A \<and> card B = 2}" (is "?P = ?Q")
  proof
    show "?P \<subseteq> ?Q"
    proof
      fix B assume "B \<in> ?P"
      then obtain l1 l2 where l: "l1 \<in> set lines" "l2 \<in> set lines" "l1 \<noteq> l2"
        and B: "B = {?sid l1, ?sid l2}" by blast
      have "?sid l1 \<noteq> ?sid l2" using l(3) by (simp add: station_id_inj)
      then have "card B = 2" unfolding B by simp
      moreover have "B \<subseteq> ?A" unfolding B using l by blast
      ultimately show "B \<in> ?Q" by blast
    qed
    show "?Q \<subseteq> ?P"
    proof
      fix B assume "B \<in> ?Q"
      then obtain x y where "B = {x, y}" "x \<noteq> y" "x \<in> ?A" "y \<in> ?A"
        by (auto simp: card_2_iff)
      then show "B \<in> ?P" by auto
    qed
  qed
  moreover have "card ?A = length lines"
    using assms inj by (simp add: card_image distinct_card inj_on_def)
  ultimately show ?thesis
    using n_subsets[of ?A 2] by (simp add: choose_two)
qed

lemma lines_calls_append:
  "lines_calls rnd (xs @ ys) c =
     lines_calls rnd xs c @
     lines_calls rnd ys (c + sum_list (map (\<lambda>lg. length (snd lg) - 1) xs))"
  by (induction xs arbitrary: c) (simp_all add: add.assoc)

lemma names_of_line:
  assumes "distinct df"
  shows "sorted_wrt (<) (map Station (sort_values (filter (\<lambda>r. Line r = l) df)))"
    and "set (map Station (sort_values (filter (\<lambda>r. Line r = l) df))) = {n. (n, l) \<in> set df}"
proof -
  let ?grp = "filter (\<lambda>r. Line r = l) df"
  let ?names = "map Station (sort_values ?grp)"
  have "inj_on Station (set ?grp)"
    by (auto simp: inj_on_def Station_def Line_def prod_eq_iff)
  moreover have "distinct ?grp" using assms by simp
  ultimately have "distinct ?names"
    by (simp add: sort_values_def distinct_map)
  moreover have "sorted ?names" by (simp add: sort_values_def)
  ultimately show "sorted_wrt (<) ?names" by (simp add: strict_sorted_iff)
  show "set ?names = {n. (n, l) \<in> set df}"
    by (force simp: sort_values_def Station_def Line_def image_iff)
qed

lemma line_calls_shape:
  assumes "distinct df"
    and "c \<in> set (line_calls rnd l (map Station (sort_values (filter (\<lambda>r. Line r = l) df))) d)"
  shows "\<exists>n n' w. n \<noteq> n' \<and> (n, l) \<in> set df \<and> (n', l) \<in> set df \<and> 2 \<le> w \<and> w \<le> 8 \<and>
           c = (station_id \<lparr>name = n, line = l\<rparr>, station_id \<lparr>name = n', line = l\<rparr>, w)"
proof -
  let ?names = "map Station (sort_values (filter (\<lambda>r. Line r = l) df))"
  from assms(2) obtain i where i: "i < length ?names - 1"
    and c: "c = (station_id \<lparr>name = ?names ! i, line = l\<rparr>,
                 station_id \<lparr>name = ?names ! (i + 1), line = l\<rparr>,
                 randint 2 8 (rnd (d + i)))"
    unfolding line_calls_def by auto
  from i have lt: "i < i + 1" "i + 1 < length ?names" by simp_all
  from names_of_line(1)[OF assms(1), of l] lt have "?names ! i < ?names ! (i + 1)"
    by (rule sorted_wrt_nth_less)
  then have ne: "?names ! i \<noteq> ?names ! (i + 1)" by simp
  have "?names ! i \<in> set ?names" "?names ! (i + 1) \<in> set ?names"
    using lt by (simp_all del: set_map length_map)
  then have "(?names ! i, l) \<in> set df" "(?names ! (i + 1), l) \<in> set df"
    unfolding names_of_line(2)[OF assms(1)] by simp_all
  with ne c randint_range[of "rnd (d + i)"] show ?thesis by blast
qed

lemma lines_calls_shape:
  assumes "distinct df" and "set gs \<subseteq> set (groupby Line df)"
    and "c \<in> set (concat (map snd (lines_calls rnd gs d)))"
  shows "\<exists>l n n' w. l \<in> fst ` set gs \<and> n \<noteq> n' \<and> (n, l) \<in> set df \<and> (n', l) \<in> set df \<and>
           2 \<le> w \<and> w \<le> 8 \<and>
           c = (station_id \<lparr>name = n, line = l\<rparr>, station_id \<lparr>name = n', line = l\<rparr>, w)"
  using assms(2,3)
proof (induction gs arbitrary: d)
  case Nil
  then show ?case by simp
next
  case (Cons lg gs)
  from Cons.prems(2) consider
    (here) "c \<in> set (line_calls rnd (fst lg) (map Station (sort_values (snd lg))) d)"
    | (later) "c \<in> set (concat (map snd (lines_calls rnd gs (d + (length (snd lg) - 1)))))"
    by auto
  then show ?case
  proof cases
    case here
    have "lg \<in> set (groupby Line df)" using Cons.prems(1) by simp
    then have "snd lg = filter (\<lambda>r. Line r = fst lg) df"
      using groupby_member[of "fst lg" "snd lg" Line df] by simp
    with here line_calls_shape[OF assms(1), of c rnd "fst lg" d]
    obtain n n' w where "n \<noteq> n'" "(n, fst lg) \<in> set df" "(n', fst lg) \<in> set df" "2 \<le> w" "w \<le> 8"
      "c = (station_id \<lparr>name = n, line = fst lg\<rparr>, station_id \<lparr>name = n', line = fst lg\<rparr>, w)"
      by auto
    then show ?thesis by (intro exI[of _ "fst lg"] exI[of _ n] exI[of _ n'] exI[of _ w]) simp
  next
    case later
    from Cons.prems(1) have "set gs \<subseteq> set (groupby Line df)" by simp
    from Cons.IH[OF this later] show ?thesis by auto
  qed
qed

lemma lines_of_station:
  assumes "distinct df"
  shows "distinct (map Line (filter (\<lambda>r. Station r = n) df))"
    and "set (map Line (filter (\<lambda>r. Station r = n) df)) = {l. (n, l) \<in> set df}"
proof -
  let ?grp = "filter (\<lambda>r. Station r = n) df"
  have "inj_on Line (set ?grp)"
    by (auto simp: inj_on_def Station_def Line_def prod_eq_iff)
  moreover have "distinct ?grp" using assms by simp
  ultimately show "distinct (map Line ?grp)" by (simp add: distinct_map)
  show "set (map Line ?grp) = {l. (n, l) \<in> set df}"
    by (force simp: Station_def Line_def image_iff)
qed

lemma transfer_calls_shape:
  assumes "distinct df"
    and "c \<in> set (transfer_calls n (map Line (filter (\<lambda>r. Station r = n) df)))"
  shows "\<exists>l l'. l \<noteq> l' \<and> (n, l) \<in> set df \<and> (n, l') \<in> set df \<and>
           c = (station_id \<lparr>name = n, line = l\<rparr>, station_id \<lparr>name = n, line = l'\<rparr>, 5)"
proof -
  let ?lines = "map Line (filter (\<lambda>r. Station r = n) df)"
  from assms(2) obtain i j where ij: "i < j" "j < length ?lines"
    and c: "c = (n @ '' ('' @ ?lines ! i @ '')'', n @ '' ('' @ ?lines ! j @ '')'', 5)"
    unfolding transfer_calls_set by auto
  have "i < length ?lines" using ij by simp
  then have "?lines ! i \<noteq> ?lines ! j"
    using lines_of_station(1)[OF assms(1), of n] ij nth_eq_iff_index_eq[of ?lines i j]
    by (simp del: length_map nth_map)
  moreover have "?lines ! i \<in> set ?lines" "?lines ! j \<in> set ?lines"
    using ij by (simp_all del: set_map length_map)
  then have "(n, ?lines ! i) \<in> set df" "(n, ?lines ! j) \<in> set df"
    unfolding lines_of_station(2)[OF assms(1)] by simp_all
  ultimately show ?thesis using c by (auto simp: station_id_def)
qed

lemma stations_calls_shape:
  assumes "distinct df" and "set gs \<subseteq> set (groupby Station df)"
    and "c \<in> set (concat (map (\<lambda>sg. transfer_calls (fst sg) (map Line (snd sg))) gs))"
  shows "\<exists>n l l'. n \<in> fst ` set gs \<and> l \<noteq> l' \<and> (n, l) \<in> set df \<and> (n, l') \<in> set df \<and>
           c = (station_id \<lparr>name = n, line = l\<rparr>, station_id \<lparr>name = n, line = l'\<rparr>, 5)"
proof -
  from assms(3) obtain sg where sg: "sg \<in> set gs"
    and c: "c \<in> set (transfer_calls (fst sg) (map Line (snd sg)))" by auto
  from sg assms(2) have "sg \<in> set (groupby Station df)" by blast
  then have "snd sg = filter (\<lambda>r. Station r = fst sg) df"
    using groupby_member[of "fst sg" "snd sg" Station df] by simp
  with c transfer_calls_shape[OF assms(1), of c "fst sg"]
  obtain l l' where "l \<noteq> l'" "(fst sg, l) \<in> set df" "(fst sg, l') \<in> set df"
    "c = (station_id \<lparr>name = fst sg, line = l\<rparr>, station_id \<lparr>name = fst sg, line = l'\<rparr>, 5)"
    by auto
  with sg show ?thesis by (intro exI[of _ "fst sg"] exI[of _ l] exI[of _ l']) simp
qed

lemma entries_empty:
  "(\<forall>c \<in> set cs. fst c \<noteq> v \<and> fst (snd c) \<noteq> v) \<Longrightarrow> entries cs v = []"
  by (induction cs) (auto simp: entries_def)

lemma row_id_unique:
  assumes "distinct (map row_id df)" and "(n, l) \<in> set df" and "(n', l') \<in> set df"
    and "station_id \<lparr>name = n, line = l\<rparr> = station_id \<lparr>name = n', line = l'\<rparr>"
  shows "n = n' \<and> l = l'"
proof -
  from assms(1) have "inj_on row_id (set df)" by (simp add: distinct_map)
  moreover have "row_id (n, l) = row_id (n', l')"
    using assms(4) by (simp add: row_id_def Station_def Line_def)
  ultimately have "(n, l) = (n', l')" using assms(2,3) by (meson inj_onD)
  then show ?thesis by simp
qed

lemma station_id_same_line:
  "station_id \<lparr>name = n, line = l\<rparr> = station_id \<lparr>name = n', line = l\<rparr> \<longleftrightarrow> n = n'"
  by (simp add: station_id_def)

lemma concat_one:
  "concat (map (\<lambda>j. if j = i then A else []) [a..<b]) = (if a \<le> i \<and> i < b then A else [])"
  by (induction b) auto

lemma concat_two:
  "concat (map (\<lambda>j. (if j = i then A else []) @ (if j + 1 = i then B else [])) [0..<m]) =
     (if 0 < i \<and> i \<le> m then B else []) @ (if i < m then A else [])"
  by (induction m) auto

lemma entries_concat: "entries (concat xss) v = concat (map (\<lambda>xs. entries xs v) xss)"
  by (induction xss) (simp_all add: entries_def)

lemma entries_line_calls:
  assumes "distinct names" and "i < length names"
  shows "entries (line_calls rnd ln names c) (station_id \<lparr>name = names ! i, line = ln\<rparr>) =
     (if 0 < i
      then [(station_id \<lparr>name = names ! (i - 1), line = ln\<rparr>, randint 2 8 (rnd (c + (i - 1))))]
      else []) @
     (if i < length names - 1
      then [(station_id \<lparr>name = names ! (i + 1), line = ln\<rparr>, randint 2 8 (rnd (c + i)))]
      else [])"
proof -
  let ?sid = "\<lambda>j. station_id \<lparr>name = names ! j, line = ln\<rparr>"
  let ?w = "\<lambda>j. randint 2 8 (rnd (c + j))"
  let ?A = "[(?sid (i + 1), ?w i)]"
  let ?B = "[(?sid (i - 1), ?w (i - 1))]"
  have eq: "?sid j = ?sid i \<longleftrightarrow> j = i" if "j < length names" for j
    using assms that by (simp add: station_id_same_line nth_eq_iff_index_eq)
  have "entries (line_calls rnd ln names c) (?sid i) =
      concat (map (\<lambda>j. (if ?sid i = ?sid j then [(?sid (j + 1), ?w j)] else []) @
                        (if ?sid i = ?sid (j + 1) then [(?sid j, ?w j)] else []))
                  [0..<length names - 1])"
    by (simp add: entries_def line_calls_def comp_def cong: if_cong)
  also have "\<dots> = concat (map (\<lambda>j. (if j = i then ?A else []) @ (if j + 1 = i then ?B else []))
                  [0..<length names - 1])"
  proof (rule arg_cong[where f = concat], rule map_cong[OF refl])
    fix j assume "j \<in> set [0..<length names - 1]"
    then have j: "j < length names" "j + 1 < length names" by auto
    from eq[OF j(1)] eq[OF j(2)]
    show "(if ?sid i = ?sid j then [(?sid (j + 1), ?w j)] else []) @
          (if ?sid i = ?sid (j + 1) then [(?sid j, ?w j)] else []) =
          (if j = i then ?A else []) @ (if j + 1 = i then ?B else [])"
      by (auto simp: eq_commute[of "?sid i"])
  qed
  also have "\<dots> = (if 0 < i \<and> i \<le> length names - 1 then ?B else []) @
                  (if i < length names - 1 then ?A else [])"
    by (rule concat_two)
  also have "\<dots> = (if 0 < i then ?B else []) @ (if i < length names - 1 then ?A else [])"
    using assms(2) by auto
  finally show ?thesis .
qed

lemma entries_transfer_row:
  assumes "distinct lines" and "i < length lines" and "p < length lines"
  shows "entries (map (\<lambda>j. (nm @ '' ('' @ lines ! p @ '')'', nm @ '' ('' @ lines ! j @ '')'', 5))
                   [p + 1..<length lines]) (nm @ '' ('' @ lines ! i @ '')'') =
         (if p = i then map (\<lambda>j. (nm @ '' ('' @ lines ! j @ '')'', 5)) [i + 1..<length lines]
          else if p < i then [(nm @ '' ('' @ lines ! p @ '')'', 5)] else [])"
proof -
  let ?sid = "\<lambda>j. nm @ '' ('' @ lines ! j @ '')''"
  have eq: "?sid i = ?sid j \<longleftrightarrow> j = i" if "j < length lines" for j
    using assms(1,2) that by (auto simp: nth_eq_iff_index_eq)
  have e: "entries (map (\<lambda>j. (?sid p, ?sid j, 5)) [p + 1..<length lines]) (?sid i) =
      concat (map (\<lambda>j. (if ?sid i = ?sid p then [(?sid j, 5)] else []) @
                        (if ?sid i = ?sid j then [(?sid p, 5)] else []))
                  [p + 1..<length lines])"
    by (simp add: entries_def comp_def cong: if_cong)
  show ?thesis
  proof (cases "p = i")
    case True
    have "concat (map (\<lambda>j. (if ?sid i = ?sid p then [(?sid j, 5)] else []) @
                        (if ?sid i = ?sid j then [(?sid p, 5)] else []))
                  [p + 1..<length lines]) =
          concat (map (\<lambda>j. [(?sid j, 5::int)]) [i + 1..<length lines])"
      unfolding True
    proof (rule arg_cong[where f = concat], rule map_cong[OF refl])
      fix j assume "j \<in> set [i + 1..<length lines]"
      then have "j < length lines" "j \<noteq> i" by auto
      with eq[of j]
      show "(if ?sid i = ?sid i then [(?sid j, 5)] else []) @
            (if ?sid i = ?sid j then [(?sid i, 5)] else []) = [(?sid j, 5::int)]"
        by simp
    qed
    also have "\<dots> = map (\<lambda>j. (?sid j, 5)) [i + 1..<length lines]"
      by (induction "[i + 1..<length lines]") (simp_all add: concat_map_singleton)
    finally show ?thesis using e True by simp
  next
    case False
    have np: "?sid i \<noteq> ?sid p" using eq[OF assms(3)] False by simp
    have "concat (map (\<lambda>j. (if ?sid i = ?sid p then [(?sid j, 5)] else []) @
                        (if ?sid i = ?sid j then [(?sid p, 5)] else []))
                  [p + 1..<length lines]) =
          concat (map (\<lambda>j. if j = i then [(?sid p, 5::int)] else []) [p + 1..<length lines])"
    proof (rule arg_cong[where f = concat], rule map_cong[OF refl])
      fix j assume "j \<in> set [p + 1..<length lines]"
      then have "j < length lines" by auto
      with eq[of j] np
      show "(if ?sid i = ?sid p then [(?sid j, 5)] else []) @
            (if ?sid i = ?sid j then [(?sid p, 5)] else []) =
            (if j = i then [(?sid p, 5::int)] else [])"
        by simp
    qed
    also have "\<dots> = (if p + 1 \<le> i \<and> i < length lines then [(?sid p, 5)] else [])"
      by (rule concat_one)
    finally show ?thesis using e False assms(2) by auto
  qed
qed

lemma entries_transfer_calls:
  assumes "distinct lines" and "i < length lines"
  shows "entries (transfer_calls nm lines) (nm @ '' ('' @ lines ! i @ '')'') =
           map (\<lambda>j. (nm @ '' ('' @ lines ! j @ '')'', 5)) ([0..<i] @ [Suc i..<length lines])"
proof -
  let ?sid = "\<lambda>j. nm @ '' ('' @ lines ! j @ '')''"
  let ?row = "\<lambda>p. map (\<lambda>j. (?sid p, ?sid j, 5::int)) [p + 1..<length lines]"
  let ?R = "\<lambda>p. if p = i then map (\<lambda>j. (?sid j, 5::int)) [i + 1..<length lines]
                  else if p < i then [(?sid p, 5)] else []"
  have "entries (transfer_calls nm lines) (?sid i) =
        concat (map (\<lambda>p. entries (?row p) (?sid i)) [0..<length lines])"
    by (simp add: transfer_calls_def entries_concat comp_def)
  also have "\<dots> = concat (map ?R [0..<length lines])"
  proof (rule arg_cong[where f = concat], rule map_cong[OF refl])
    fix p assume "p \<in> set [0..<length lines]"
    then have "p < length lines" by simp
    from entries_transfer_row[OF assms this, of nm]
    show "entries (?row p) (?sid i) = ?R p" .
  qed
  also have "[0..<length lines] = [0..<i] @ [i] @ [Suc i..<length lines]"
  proof -
    have "[0..<i + (length lines - i)] = [0..<i] @ [i..<i + (length lines - i)]"
      by (rule upt_add_eq_append) simp
    then have "[0..<length lines] = [0..<i] @ [i..<length lines]" using assms(2) by simp
    then show ?thesis using assms(2) by (simp add: upt_conv_Cons)
  qed
  also have "concat (map ?R ([0..<i] @ [i] @ [Suc i..<length lines])) =
        concat (map ?R [0..<i]) @ ?R i @ concat (map ?R [Suc i..<length lines])"
    by simp
  also have "concat (map ?R [0..<i]) = concat (map (\<lambda>p. [(?sid p, 5)]) [0..<i])"
    by (rule arg_cong[where f = concat], rule map_cong[OF refl]) simp
  also have "\<dots> = map (\<lambda>p. (?sid p, 5)) [0..<i]"
    by (simp add: concat_map_singleton)
  also have "concat (map ?R [Suc i..<length lines]) = concat (map (\<lambda>p. []) [Suc i..<length lines])"
    by (rule arg_cong[where f = concat], rule map_cong[OF refl]) simp
  also have "\<dots> = []" by simp
  finally show ?thesis by simp
qed

lemma sum_ends:
  "(\<Sum>i<k. (if 0 < i then 1 else 0) + (if i < k - 1 then 1 else (0::nat))) = 2 * (k - 1)"
proof -
  have a: "(\<Sum>i<k. if 0 < i then 1 else (0::nat)) = k - 1"
    by (induction k) auto
  have "(\<Sum>i<k. if i < k - 1 then 1 else (0::nat)) = (\<Sum>i\<in>{..<k - 1}. 1)"
    by (rule sum.mono_neutral_cong_right) auto
  also have "\<dots> = k - 1" by simp
  finally have b: "(\<Sum>i<k. if i < k - 1 then 1 else (0::nat)) = k - 1" .
  show ?thesis unfolding sum.distrib a b by simp
qed

text \<open>
  Claim C4. With no row repeated, take a line with \<open>k \<ge> 2\<close> stations; \<open>names\<close> are its
  station names in the order the loop walks them, strictly ascending. The group of the
  line comes exactly once in the loop over the lines. In the store that the pass over
  the lines leaves, starting from the store without edges, every adjacency list is what
  these calls append, in this order: the calls for the groups before, the \<open>k - 1\<close> calls
  for this line (the \<open>i\<close>-th joins the \<open>i\<close>-th and the next name with a drawn weight
  between 2 and 8), the calls for the groups after; the calls before and after are for
  other lines. The pass over the stations appends only transfers, and \<open>build_graph\<close>
  returns the store it leaves. When, moreover, no two rows have the same identifier,
  the node of the \<open>i\<close>-th name has after the pass over the lines exactly its edge to the
  name before and its edge to the name after, which makes \<open>2 (k - 1)\<close> entries for the
  line, each of the \<open>k - 1\<close> edges at its two ends, and the graph returned adds to them
  only transfers to the same station on other lines.
\<close>

theorem line_edges:
  assumes "distinct df"
    and "grp = filter (\<lambda>r. Line r = ln) df"
    and "names = map Station (sort_values grp)"
    and "2 \<le> length names"
  shows "sorted_wrt (<) names \<and>
         set names = {n. (n, ln) \<in> set df} \<and>
         length names = card {n. (n, ln) \<in> set df} \<and>
         (\<exists>gpre gpost c0 pre post tc g2 drawn G.
            groupby Line df = gpre @ [(ln, grp)] @ gpost \<and>
            ln \<notin> fst ` set (gpre @ gpost) \<and>
            c0 = sum_list (map (\<lambda>lg. length (snd lg) - 1) gpre) \<and>
            connect_lines rnd df (add_stations df Graph, 0) = Inr (g2, drawn) \<and>
            add_transfers df g2 = Inr G \<and>
            build_graph df rnd = Inr G \<and>
            (\<forall>v. adjacent g2 v = entries (pre @ line_calls rnd ln names c0 @ post) v) \<and>
            (\<forall>v. adjacent G v = adjacent g2 v @ entries tc v) \<and>
            length (line_calls rnd ln names c0) = length names - 1 \<and>
            (\<forall>i < length names - 1.
               line_calls rnd ln names c0 ! i =
                 (station_id \<lparr>name = names ! i, line = ln\<rparr>,
                  station_id \<lparr>name = names ! (i + 1), line = ln\<rparr>,
                  randint 2 8 (rnd (c0 + i))) \<and>
               2 \<le> randint 2 8 (rnd (c0 + i)) \<and> randint 2 8 (rnd (c0 + i)) \<le> 8) \<and>
            (\<forall>c \<in> set (pre @ post).
               \<exists>l n n' w. l \<noteq> ln \<and> n \<noteq> n' \<and> (n, l) \<in> set df \<and> (n', l) \<in> set df \<and>
                 2 \<le> w \<and> w \<le> 8 \<and>
                 c = (station_id \<lparr>name = n, line = l\<rparr>, station_id \<lparr>name = n', line = l\<rparr>, w)) \<and>
            (\<forall>c \<in> set tc.
               \<exists>n l l'. l \<noteq> l' \<and> (n, l) \<in> set df \<and> (n, l') \<in> set df \<and>
                 c = (station_id \<lparr>name = n, line = l\<rparr>, station_id \<lparr>name = n, line = l'\<rparr>, 5)) \<and>
            (distinct (map row_id df) \<longrightarrow>
               (\<forall>i < length names.
                  adjacent g2 (station_id \<lparr>name = names ! i, line = ln\<rparr>) =
                    (if 0 < i
                     then [(station_id \<lparr>name = names ! (i - 1), line = ln\<rparr>,
                            randint 2 8 (rnd (c0 + (i - 1))))]
                     else []) @
                    (if i < length names - 1
                     then [(station_id \<lparr>name = names ! (i + 1), line = ln\<rparr>,
                            randint 2 8 (rnd (c0 + i)))]
                     else []) \<and>
                  (\<exists>added.
                     adjacent G (station_id \<lparr>name = names ! i, line = ln\<rparr>) =
                       adjacent g2 (station_id \<lparr>name = names ! i, line = ln\<rparr>) @ added \<and>
                     (\<forall>e \<in> set added.
                        snd e = 5 \<and>
                        (\<exists>l'. l' \<noteq> ln \<and> (names ! i, l') \<in> set df \<and>
                              fst e = station_id \<lparr>name = names ! i, line = l'\<rparr>)))) \<and>
               (\<Sum>i < length names.
                  length (adjacent g2 (station_id \<lparr>name = names ! i, line = ln\<rparr>))) =
                 2 * (length names - 1)))"
proof -
  let ?sid = "\<lambda>i. station_id \<lparr>name = names ! i, line = ln\<rparr>"
  have len: "length names = length grp" by (simp add: assms(3) sort_values_def)
  \<comment> \<open>the names\<close>
  have c1: "sorted_wrt (<) names"
    unfolding assms(2,3) by (rule names_of_line(1)[OF assms(1)])
  have c2: "set names = {n. (n, ln) \<in> set df}"
    unfolding assms(2,3) by (rule names_of_line(2)[OF assms(1)])
  have dn: "distinct names" using c1 by (simp add: strict_sorted_iff)
  have c3: "length names = card {n. (n, ln) \<in> set df}"
    using dn c2 by (metis distinct_card)
  \<comment> \<open>the group\<close>
  from assms(4) len obtain r where "r \<in> set grp" by (cases grp) auto
  then have r: "r \<in> set df" "Line r = ln" by (simp_all add: assms(2))
  from groupby_split[OF r(1), of Line] r(2) assms(2) obtain gpre gpost where
    gs: "groupby Line df = gpre @ [(ln, grp)] @ gpost" and
    once: "ln \<notin> fst ` set (gpre @ gpost)" by auto
  define c0 where "c0 = sum_list (map (\<lambda>lg. length (snd lg) - 1) gpre)"
  define pre where "pre = concat (map snd (lines_calls rnd gpre 0))"
  define post where "post = concat (map snd (lines_calls rnd gpost (c0 + (length grp - 1))))"
  define tc where "tc = concat (map snd (stations_calls df))"
  let ?lc = "line_calls rnd ln names c0"
  have split: "concat (map snd (lines_calls rnd (groupby Line df) 0)) = pre @ ?lc @ post"
    unfolding gs by (simp add: lines_calls_append pre_def post_def c0_def assms(3))
  \<comment> \<open>the two passes\<close>
  from build_passes[of rnd df] obtain g2 drawn G where
    p1: "connect_lines rnd df (add_stations df Graph, 0) = Inr (g2, drawn)" and
    a2: "\<forall>v. adjacent g2 v = entries (pre @ ?lc @ post) v" and
    p2: "add_transfers df g2 = Inr G" and
    aG: "\<forall>v. adjacent G v = adjacent g2 v @ entries tc v" and
    bg: "build_graph df rnd = Inr G"
    unfolding split tc_def by blast
  \<comment> \<open>the calls for this line\<close>
  have c5: "length ?lc = length names - 1" by (rule length_line_calls)
  have c6: "\<forall>i < length names - 1.
               ?lc ! i = (?sid i, ?sid (i + 1), randint 2 8 (rnd (c0 + i))) \<and>
               2 \<le> randint 2 8 (rnd (c0 + i)) \<and> randint 2 8 (rnd (c0 + i)) \<le> 8"
    using line_calls_nth[of _ names rnd ln c0] randint_range by simp
  \<comment> \<open>the other calls\<close>
  have others: "\<exists>l n n' w. l \<noteq> ln \<and> n \<noteq> n' \<and> (n, l) \<in> set df \<and> (n', l) \<in> set df \<and>
                 2 \<le> w \<and> w \<le> 8 \<and>
                 c = (station_id \<lparr>name = n, line = l\<rparr>, station_id \<lparr>name = n', line = l\<rparr>, w)"
    if "c \<in> set (pre @ post)" for c
  proof -
    from that consider "c \<in> set pre" | "c \<in> set post" by auto
    then obtain gs' d where sub: "set gs' \<subseteq> set (gpre @ gpost)"
      and c: "c \<in> set (concat (map snd (lines_calls rnd gs' d)))"
    proof cases
      case 1
      then show ?thesis using that[of gpre 0] by (simp add: pre_def)
    next
      case 2
      then show ?thesis using that[of gpost "c0 + (length grp - 1)"] by (simp add: post_def)
    qed
    from sub have "set gs' \<subseteq> set (groupby Line df)" unfolding gs by auto
    from lines_calls_shape[OF assms(1) this c] obtain l n n' w where
      l: "l \<in> fst ` set gs'" and
      s: "n \<noteq> n'" "(n, l) \<in> set df" "(n', l) \<in> set df" "2 \<le> w" "w \<le> 8"
        "c = (station_id \<lparr>name = n, line = l\<rparr>, station_id \<lparr>name = n', line = l\<rparr>, w)"
      by blast
    from l sub once have "l \<noteq> ln" by blast
    with s show ?thesis by blast
  qed
  then have c7: "\<forall>c \<in> set (pre @ post).
               \<exists>l n n' w. l \<noteq> ln \<and> n \<noteq> n' \<and> (n, l) \<in> set df \<and> (n', l) \<in> set df \<and>
                 2 \<le> w \<and> w \<le> 8 \<and>
                 c = (station_id \<lparr>name = n, line = l\<rparr>, station_id \<lparr>name = n', line = l\<rparr>, w)"
    by blast
  have tcs: "tc = concat (map (\<lambda>sg. transfer_calls (fst sg) (map Line (snd sg))) (groupby Station df))"
    by (simp add: tc_def stations_calls_def comp_def)
  have transfers: "\<exists>n l l'. l \<noteq> l' \<and> (n, l) \<in> set df \<and> (n, l') \<in> set df \<and>
                 c = (station_id \<lparr>name = n, line = l\<rparr>, station_id \<lparr>name = n, line = l'\<rparr>, 5)"
    if "c \<in> set tc" for c
    using stations_calls_shape[OF assms(1) subset_refl, of c] that unfolding tcs by blast
  then have c8: "\<forall>c \<in> set tc.
               \<exists>n l l'. l \<noteq> l' \<and> (n, l) \<in> set df \<and> (n, l') \<in> set df \<and>
                 c = (station_id \<lparr>name = n, line = l\<rparr>, station_id \<lparr>name = n, line = l'\<rparr>, 5)"
    by blast
  \<comment> \<open>the nodes of the line, when the identifiers tell the rows apart\<close>
  let ?line = "\<lambda>i. (if 0 < i then [(?sid (i - 1), randint 2 8 (rnd (c0 + (i - 1))))] else []) @
                   (if i < length names - 1 then [(?sid (i + 1), randint 2 8 (rnd (c0 + i)))] else [])"
  have c9: "distinct (map row_id df) \<longrightarrow>
               (\<forall>i < length names.
                  adjacent g2 (?sid i) = ?line i \<and>
                  (\<exists>added.
                     adjacent G (?sid i) = adjacent g2 (?sid i) @ added \<and>
                     (\<forall>e \<in> set added.
                        snd e = 5 \<and>
                        (\<exists>l'. l' \<noteq> ln \<and> (names ! i, l') \<in> set df \<and>
                              fst e = station_id \<lparr>name = names ! i, line = l'\<rparr>)))) \<and>
               (\<Sum>i < length names. length (adjacent g2 (?sid i))) = 2 * (length names - 1)"
  proof
    assume ids: "distinct (map row_id df)"
    have node: "adjacent g2 (?sid i) = ?line i \<and>
                  (\<exists>added.
                     adjacent G (?sid i) = adjacent g2 (?sid i) @ added \<and>
                     (\<forall>e \<in> set added.
                        snd e = 5 \<and>
                        (\<exists>l'. l' \<noteq> ln \<and> (names ! i, l') \<in> set df \<and>
                              fst e = station_id \<lparr>name = names ! i, line = l'\<rparr>)))"
      if i: "i < length names" for i
    proof -
      from i have "names ! i \<in> set names" by simp
      then have row: "(names ! i, ln) \<in> set df" unfolding c2 by simp
      have "\<forall>c \<in> set (pre @ post). fst c \<noteq> ?sid i \<and> fst (snd c) \<noteq> ?sid i"
      proof
        fix c assume "c \<in> set (pre @ post)"
        from others[OF this] obtain l n n' w where
          s: "l \<noteq> ln" "(n, l) \<in> set df" "(n', l) \<in> set df"
            "c = (station_id \<lparr>name = n, line = l\<rparr>, station_id \<lparr>name = n', line = l\<rparr>, w)"
          by blast
        from row_id_unique[OF ids s(2) row] row_id_unique[OF ids s(3) row] s(1,4)
        show "fst c \<noteq> ?sid i \<and> fst (snd c) \<noteq> ?sid i" by auto
      qed
      then have "entries pre (?sid i) = []" "entries post (?sid i) = []"
        by (simp_all add: entries_empty)
      then have one: "adjacent g2 (?sid i) = ?line i"
        using a2 entries_line_calls[OF dn i, of rnd ln c0] by (simp add: entries_append)
      have "snd e = 5 \<and> (\<exists>l'. l' \<noteq> ln \<and> (names ! i, l') \<in> set df \<and>
                              fst e = station_id \<lparr>name = names ! i, line = l'\<rparr>)"
        if "e \<in> set (entries tc (?sid i))" for e
      proof -
        from that have "(?sid i, fst e, snd e) \<in> set tc \<or> (fst e, ?sid i, snd e) \<in> set tc"
          using entries_member[of "fst e" "snd e" tc "?sid i"] by simp
        then show ?thesis
        proof
          assume "(?sid i, fst e, snd e) \<in> set tc"
          from transfers[OF this] obtain n l l' where
            s: "l \<noteq> l'" "(n, l) \<in> set df" "(n, l') \<in> set df"
              "?sid i = station_id \<lparr>name = n, line = l\<rparr>"
              "fst e = station_id \<lparr>name = n, line = l'\<rparr>" "snd e = 5" by auto
          from row_id_unique[OF ids row s(2) s(4)] have "n = names ! i" "l = ln" by simp_all
          with s show ?thesis by auto
        next
          assume "(fst e, ?sid i, snd e) \<in> set tc"
          from transfers[OF this] obtain n l l' where
            s: "l \<noteq> l'" "(n, l) \<in> set df" "(n, l') \<in> set df"
              "?sid i = station_id \<lparr>name = n, line = l'\<rparr>"
              "fst e = station_id \<lparr>name = n, line = l\<rparr>" "snd e = 5" by auto
          from row_id_unique[OF ids row s(3) s(4)] have "n = names ! i" "l' = ln" by simp_all
          with s show ?thesis by auto
        qed
      qed
      then have "\<exists>added.
                     adjacent G (?sid i) = adjacent g2 (?sid i) @ added \<and>
                     (\<forall>e \<in> set added.
                        snd e = 5 \<and>
                        (\<exists>l'. l' \<noteq> ln \<and> (names ! i, l') \<in> set df \<and>
                              fst e = station_id \<lparr>name = names ! i, line = l'\<rparr>))"
        using aG by (intro exI[of _ "entries tc (?sid i)"]) simp
      with one show ?thesis by (rule conjI)
    qed
    have "(\<Sum>i < length names. length (adjacent g2 (?sid i))) =
          (\<Sum>i < length names. (if 0 < i then 1 else 0) + (if i < length names - 1 then 1 else 0))"
    proof (rule sum.cong[OF refl])
      fix i assume "i \<in> {..<length names}"
      then have "i < length names" by simp
      from node[OF this] have "adjacent g2 (?sid i) = ?line i" by (rule conjunct1)
      then show "length (adjacent g2 (?sid i)) =
          (if 0 < i then 1 else 0) + (if i < length names - 1 then 1 else 0)"
        by simp
    qed
    also have "\<dots> = 2 * (length names - 1)" by (rule sum_ends)
    finally show "(\<forall>i < length names.
                  adjacent g2 (?sid i) = ?line i \<and>
                  (\<exists>added.
                     adjacent G (?sid i) = adjacent g2 (?sid i) @ added \<and>
                     (\<forall>e \<in> set added.
                        snd e = 5 \<and>
                        (\<exists>l'. l' \<noteq> ln \<and> (names ! i, l') \<in> set df \<and>
                              fst e = station_id \<lparr>name = names ! i, line = l'\<rparr>)))) \<and>
               (\<Sum>i < length names. length (adjacent g2 (?sid i))) = 2 * (length names - 1)"
      using node by blast
  qed
  have ex: "\<exists>gpre gpost c0 pre post tc g2 drawn G.
            groupby Line df = gpre @ [(ln, grp)] @ gpost \<and>
            ln \<notin> fst ` set (gpre @ gpost) \<and>
            c0 = sum_list (map (\<lambda>lg. length (snd lg) - 1) gpre) \<and>
            connect_lines rnd df (add_stations df Graph, 0) = Inr (g2, drawn) \<and>
            add_transfers df g2 = Inr G \<and>
            build_graph df rnd = Inr G \<and>
            (\<forall>v. adjacent g2 v = entries (pre @ line_calls rnd ln names c0 @ post) v) \<and>
            (\<forall>v. adjacent G v = adjacent g2 v @ entries tc v) \<and>
            length (line_calls rnd ln names c0) = length names - 1 \<and>
            (\<forall>i < length names - 1.
               line_calls rnd ln names c0 ! i =
                 (station_id \<lparr>name = names ! i, line = ln\<rparr>,
                  station_id \<lparr>name = names ! (i + 1), line = ln\<rparr>,
                  randint 2 8 (rnd (c0 + i))) \<and>
               2 \<le> randint 2 8 (rnd (c0 + i)) \<and> randint 2 8 (rnd (c0 + i)) \<le> 8) \<and>
            (\<forall>c \<in> set (pre @ post).
               \<exists>l n n' w. l \<noteq> ln \<and> n \<noteq> n' \<and> (n, l) \<in> set df \<and> (n', l) \<in> set df \<and>
                 2 \<le> w \<and> w \<le> 8 \<and>
                 c = (station_id \<lparr>name = n, line = l\<rparr>, station_id \<lparr>name = n', line = l\<rparr>, w)) \<and>
            (\<forall>c \<in> set tc.
               \<exists>n l l'. l \<noteq> l' \<and> (n, l) \<in> set df \<and> (n, l') \<in> set df \<and>
                 c = (station_id \<lparr>name = n, line = l\<rparr>, station_id \<lparr>name = n, line = l'\<rparr>, 5)) \<and>
            (distinct (map row_id df) \<longrightarrow>
               (\<forall>i < length names.
                  adjacent g2 (station_id \<lparr>name = names ! i, line = ln\<rparr>) =
                    (if 0 < i
                     then [(station_id \<lparr>name = names ! (i - 1), line = ln\<rparr>,
                            randint 2 8 (rnd (c0 + (i - 1))))]
                     else []) @
                    (if i < length names - 1
                     then [(station_id \<lparr>name = names ! (i + 1), line = ln\<rparr>,
                            randint 2 8 (rnd (c0 + i)))]
                     else []) \<and>
                  (\<exists>added.
                     adjacent G (station_id \<lparr>name = names ! i, line = ln\<rparr>) =
                       adjacent g2 (station_id \<lparr>name = names ! i, line = ln\<rparr>) @ added \<and>
                     (\<forall>e \<in> set added.
                        snd e = 5 \<and>
                        (\<exists>l'. l' \<noteq> ln \<and> (names ! i, l') \<in> set df \<and>
                              fst e = station_id \<lparr>name = names ! i, line = l'\<rparr>)))) \<and>
               (\<Sum>i < length names.
                  length (adjacent g2 (station_id \<lparr>name = names ! i, line = ln\<rparr>))) =
                 2 * (length names - 1))"
    apply (rule exI[of _ gpre], rule exI[of _ gpost], rule exI[of _ c0], rule exI[of _ pre],
        rule exI[of _ post], rule exI[of _ tc], rule exI[of _ g2], rule exI[of _ drawn],
        rule exI[of _ G])
    apply (intro conjI)
                apply (rule gs)
               apply (rule once)
              apply (rule c0_def)
             apply (rule p1)
            apply (rule p2)
           apply (rule bg)
          apply (rule a2)
         apply (rule aG)
        apply (rule c5)
       apply (rule c6)
      apply (rule c7)
     apply (rule c8)
    apply (rule c9)
    done
  show ?thesis by (intro conjI c1 c2 c3 ex)
qed

theorem line_edges_witness:
  "distinct metro3 \<and> distinct (map row_id metro3) \<and>
   map Station (sort_values (filter (\<lambda>r. Line r = ''L1'') metro3)) = [''A'', ''B'', ''C''] \<and>
   (\<exists>g2 drawn G.
      connect_lines (\<lambda>i. i) metro3 (add_stations metro3 Graph, 0) = Inr (g2, drawn) \<and>
      build_graph metro3 (\<lambda>i. i) = Inr G \<and>
      adjacent g2 ''A (L1)'' = [(''B (L1)'', 2)] \<and>
      adjacent g2 ''B (L1)'' = [(''A (L1)'', 2), (''C (L1)'', 3)] \<and>
      adjacent g2 ''C (L1)'' = [(''B (L1)'', 3)] \<and>
      adjacent G ''A (L1)'' = [(''B (L1)'', 2)] \<and>
      adjacent G ''B (L1)'' = [(''A (L1)'', 2), (''C (L1)'', 3)] \<and>
      adjacent G ''C (L1)'' = [(''B (L1)'', 3)] \<and>
      length (adjacent G ''A (L1)'') + length (adjacent G ''B (L1)'') +
        length (adjacent G ''C (L1)'') = 2 * (3 - 1))"
proof -
  let ?names = "[''A'', ''B'', ''C'']"
  let ?grp = "filter (\<lambda>r. Line r = ''L1'') metro3"
  have h1: "distinct metro3" by (simp add: metro3_def)
  have h2: "distinct (map row_id metro3)" by code_simp
  have h3: "?names = map Station (sort_values ?grp)" by code_simp
  have h4: "2 \<le> length ?names" by simp
  have gb: "groupby Line metro3 = [(''L1'', ?grp)]" by code_simp
  have rows: "{l'. (n, l') \<in> set metro3} \<subseteq> {''L1''}" for n
    by (auto simp: metro3_def)
  have s: "station_id \<lparr>name = ''A'', line = ''L1''\<rparr> = ''A (L1)''"
    "station_id \<lparr>name = ''B'', line = ''L1''\<rparr> = ''B (L1)''"
    "station_id \<lparr>name = ''C'', line = ''L1''\<rparr> = ''C (L1)''"
    by (simp_all add: station_id_def)
  have w: "randint 2 8 0 = 2" "randint 2 8 (Suc 0) = 3" by (simp_all add: randint_def)
  from line_edges[OF h1 refl h3 h4, of "\<lambda>i. i"] have
    "\<exists>gpre gpost c0 g2 drawn G.
       groupby Line metro3 = gpre @ [(''L1'', ?grp)] @ gpost \<and>
       c0 = sum_list (map (\<lambda>lg. length (snd lg) - 1) gpre) \<and>
       connect_lines (\<lambda>i. i) metro3 (add_stations metro3 Graph, 0) = Inr (g2, drawn) \<and>
       build_graph metro3 (\<lambda>i. i) = Inr G \<and>
       (distinct (map row_id metro3) \<longrightarrow>
          (\<forall>i < length ?names.
             adjacent g2 (station_id \<lparr>name = ?names ! i, line = ''L1''\<rparr>) =
               (if 0 < i
                then [(station_id \<lparr>name = ?names ! (i - 1), line = ''L1''\<rparr>,
                       randint 2 8 (c0 + (i - 1)))]
                else []) @
               (if i < length ?names - 1
                then [(station_id \<lparr>name = ?names ! (i + 1), line = ''L1''\<rparr>,
                       randint 2 8 (c0 + i))]
                else []) \<and>
             (\<exists>added.
                adjacent G (station_id \<lparr>name = ?names ! i, line = ''L1''\<rparr>) =
                  adjacent g2 (station_id \<lparr>name = ?names ! i, line = ''L1''\<rparr>) @ added \<and>
                (\<forall>e \<in> set added.
                   snd e = 5 \<and>
                   (\<exists>l'. l' \<noteq> ''L1'' \<and> (?names ! i, l') \<in> set metro3 \<and>
                         fst e = station_id \<lparr>name = ?names ! i, line = l'\<rparr>)))))"
    by (elim conjE exE) blast
  then obtain gpre gpost c0 g2 drawn G where
    gs: "groupby Line metro3 = gpre @ [(''L1'', ?grp)] @ gpost" and
    c0: "c0 = sum_list (map (\<lambda>lg. length (snd lg) - 1) gpre)" and
    p1: "connect_lines (\<lambda>i. i) metro3 (add_stations metro3 Graph, 0) = Inr (g2, drawn)" and
    bg: "build_graph metro3 (\<lambda>i. i) = Inr G" and
    nodes: "\<forall>i < length ?names.
             adjacent g2 (station_id \<lparr>name = ?names ! i, line = ''L1''\<rparr>) =
               (if 0 < i
                then [(station_id \<lparr>name = ?names ! (i - 1), line = ''L1''\<rparr>,
                       randint 2 8 (c0 + (i - 1)))]
                else []) @
               (if i < length ?names - 1
                then [(station_id \<lparr>name = ?names ! (i + 1), line = ''L1''\<rparr>,
                       randint 2 8 (c0 + i))]
                else []) \<and>
             (\<exists>added.
                adjacent G (station_id \<lparr>name = ?names ! i, line = ''L1''\<rparr>) =
                  adjacent g2 (station_id \<lparr>name = ?names ! i, line = ''L1''\<rparr>) @ added \<and>
                (\<forall>e \<in> set added.
                   snd e = 5 \<and>
                   (\<exists>l'. l' \<noteq> ''L1'' \<and> (?names ! i, l') \<in> set metro3 \<and>
                         fst e = station_id \<lparr>name = ?names ! i, line = l'\<rparr>)))"
    using h2 by blast
  from gs have "gpre = []" unfolding gb by (cases gpre) auto
  with c0 have z: "c0 = 0" by simp
  have added: "added = []"
    if "\<forall>e \<in> set added. snd e = 5 \<and>
             (\<exists>l'. l' \<noteq> ''L1'' \<and> (n, l') \<in> set metro3 \<and>
                fst e = station_id \<lparr>name = n, line = l'\<rparr>)"
    for added :: "(string \<times> int) list" and n
  proof (cases added)
    case Nil
    then show ?thesis .
  next
    case (Cons e es)
    with that obtain l' where "l' \<noteq> ''L1''" "(n, l') \<in> set metro3" by auto
    with rows[of n] show ?thesis by blast
  qed
  from nodes[rule_format, of 0] have
    "adjacent g2 ''A (L1)'' = [(''B (L1)'', 2)] \<and> (\<exists>added.
          adjacent G ''A (L1)'' = adjacent g2 ''A (L1)'' @ added \<and>
          (\<forall>e \<in> set added. snd e = 5 \<and>
             (\<exists>l'. l' \<noteq> ''L1'' \<and> (''A'', l') \<in> set metro3 \<and>
                fst e = station_id \<lparr>name = ''A'', line = l'\<rparr>)))"
    by (simp add: z s w cong: conj_cong)
  then obtain added0 where
    a0: "adjacent g2 ''A (L1)'' = [(''B (L1)'', 2)]" and
    "adjacent G ''A (L1)'' = adjacent g2 ''A (L1)'' @ added0" and
    "\<forall>e \<in> set added0. snd e = 5 \<and>
             (\<exists>l'. l' \<noteq> ''L1'' \<and> (''A'', l') \<in> set metro3 \<and>
                fst e = station_id \<lparr>name = ''A'', line = l'\<rparr>)"
    by blast
  with added[of added0 "''A''"] have A0: "adjacent G ''A (L1)'' = [(''B (L1)'', 2)]"
    by simp
  from nodes[rule_format, of 1] have
    "adjacent g2 ''B (L1)'' = [(''A (L1)'', 2), (''C (L1)'', 3)] \<and> (\<exists>added.
          adjacent G ''B (L1)'' = adjacent g2 ''B (L1)'' @ added \<and>
          (\<forall>e \<in> set added. snd e = 5 \<and>
             (\<exists>l'. l' \<noteq> ''L1'' \<and> (''B'', l') \<in> set metro3 \<and>
                fst e = station_id \<lparr>name = ''B'', line = l'\<rparr>)))"
    by (simp add: z s w cong: conj_cong)
  then obtain added1 where
    a1: "adjacent g2 ''B (L1)'' = [(''A (L1)'', 2), (''C (L1)'', 3)]" and
    "adjacent G ''B (L1)'' = adjacent g2 ''B (L1)'' @ added1" and
    "\<forall>e \<in> set added1. snd e = 5 \<and>
             (\<exists>l'. l' \<noteq> ''L1'' \<and> (''B'', l') \<in> set metro3 \<and>
                fst e = station_id \<lparr>name = ''B'', line = l'\<rparr>)"
    by blast
  with added[of added1 "''B''"] have A1: "adjacent G ''B (L1)'' = [(''A (L1)'', 2), (''C (L1)'', 3)]"
    by simp
  from nodes[rule_format, of 2] have
    "adjacent g2 ''C (L1)'' = [(''B (L1)'', 3)] \<and> (\<exists>added.
          adjacent G ''C (L1)'' = adjacent g2 ''C (L1)'' @ added \<and>
          (\<forall>e \<in> set added. snd e = 5 \<and>
             (\<exists>l'. l' \<noteq> ''L1'' \<and> (''C'', l') \<in> set metro3 \<and>
                fst e = station_id \<lparr>name = ''C'', line = l'\<rparr>)))"
    by (simp add: z s w cong: conj_cong)
  then obtain added2 where
    a2: "adjacent g2 ''C (L1)'' = [(''B (L1)'', 3)]" and
    "adjacent G ''C (L1)'' = adjacent g2 ''C (L1)'' @ added2" and
    "\<forall>e \<in> set added2. snd e = 5 \<and>
             (\<exists>l'. l' \<noteq> ''L1'' \<and> (''C'', l') \<in> set metro3 \<and>
                fst e = station_id \<lparr>name = ''C'', line = l'\<rparr>)"
    by blast
  with added[of added2 "''C''"] have A2: "adjacent G ''C (L1)'' = [(''B (L1)'', 3)]"
    by simp
  have "connect_lines (\<lambda>i. i) metro3 (add_stations metro3 Graph, 0) = Inr (g2, drawn) \<and>
      build_graph metro3 (\<lambda>i. i) = Inr G \<and>
      adjacent g2 ''A (L1)'' = [(''B (L1)'', 2)] \<and>
      adjacent g2 ''B (L1)'' = [(''A (L1)'', 2), (''C (L1)'', 3)] \<and>
      adjacent g2 ''C (L1)'' = [(''B (L1)'', 3)] \<and>
      adjacent G ''A (L1)'' = [(''B (L1)'', 2)] \<and>
      adjacent G ''B (L1)'' = [(''A (L1)'', 2), (''C (L1)'', 3)] \<and>
      adjacent G ''C (L1)'' = [(''B (L1)'', 3)] \<and>
      length (adjacent G ''A (L1)'') + length (adjacent G ''B (L1)'') +
        length (adjacent G ''C (L1)'') = 2 * (3 - 1)"
    using p1 bg a0 a1 a2 A0 A1 A2 by simp
  then have "\<exists>g2 drawn G.
      connect_lines (\<lambda>i. i) metro3 (add_stations metro3 Graph, 0) = Inr (g2, drawn) \<and>
      build_graph metro3 (\<lambda>i. i) = Inr G \<and>
      adjacent g2 ''A (L1)'' = [(''B (L1)'', 2)] \<and>
      adjacent g2 ''B (L1)'' = [(''A (L1)'', 2), (''C (L1)'', 3)] \<and>
      adjacent g2 ''C (L1)'' = [(''B (L1)'', 3)] \<and>
      adjacent G ''A (L1)'' = [(''B (L1)'', 2)] \<and>
      adjacent G ''B (L1)'' = [(''A (L1)'', 2), (''C (L1)'', 3)] \<and>
      adjacent G ''C (L1)'' = [(''B (L1)'', 3)] \<and>
      length (adjacent G ''A (L1)'') + length (adjacent G ''B (L1)'') +
        length (adjacent G ''C (L1)'') = 2 * (3 - 1)"
    by (intro exI)
  with h1 h2 h3[symmetric] show ?thesis by (intro conjI)
qed

text \<open>
  Claim C5. With no row repeated, take a station name that is in the rows and the \<open>L\<close>
  lines it is on, in the order of the rows. Its group comes exactly once in the loop
  over the stations. The pass over the lines, starting from the store without edges,
  leaves only edges between two different stations of one line. To each adjacency list
  of the store the pass over the stations then appends what these calls append, in this
  order: the calls for the groups before, the \<open>L (L - 1) / 2\<close> calls for this station
  (each of weight 5, one for each unordered pair of different nodes of the station; none
  when \<open>L = 1\<close>), the calls for the groups after; the calls before and after are for other
  stations; and \<open>build_graph\<close> returns the store it leaves. When, moreover, no two rows
  have the same identifier, the pass over the stations appends to the adjacency list of
  the station's node on its \<open>i\<close>-th line exactly one entry of weight 5 for each of the
  station's nodes on its other lines, which makes \<open>L (L - 1)\<close> entries for the station,
  each of the \<open>L (L - 1) / 2\<close> edges at its two ends; with one line it appends nothing
  to the node.
\<close>

theorem transfer_edges:
  assumes "distinct df"
    and "grp = filter (\<lambda>r. Station r = nm) df"
    and "lines = map Line grp"
    and "1 \<le> length lines"
  shows "distinct lines \<and>
         set lines = {l. (nm, l) \<in> set df} \<and>
         length lines = card {l. (nm, l) \<in> set df} \<and>
         (\<exists>spre spost lc tpre tpost g2 drawn G.
            groupby Station df = spre @ [(nm, grp)] @ spost \<and>
            nm \<notin> fst ` set (spre @ spost) \<and>
            connect_lines rnd df (add_stations df Graph, 0) = Inr (g2, drawn) \<and>
            add_transfers df g2 = Inr G \<and>
            build_graph df rnd = Inr G \<and>
            (\<forall>v. adjacent g2 v = entries lc v) \<and>
            (\<forall>v. adjacent G v =
                   adjacent g2 v @ entries (tpre @ transfer_calls nm lines @ tpost) v) \<and>
            length (transfer_calls nm lines) = length lines * (length lines - 1) div 2 \<and>
            (\<forall>c \<in> set (transfer_calls nm lines). snd (snd c) = 5 \<and> fst c \<noteq> fst (snd c)) \<and>
            distinct (map (\<lambda>c. {fst c, fst (snd c)}) (transfer_calls nm lines)) \<and>
            (\<lambda>c. {fst c, fst (snd c)}) ` set (transfer_calls nm lines) =
              {{station_id \<lparr>name = nm, line = l1\<rparr>, station_id \<lparr>name = nm, line = l2\<rparr>} | l1 l2.
                 l1 \<in> set lines \<and> l2 \<in> set lines \<and> l1 \<noteq> l2} \<and>
            (length lines = 1 \<longrightarrow> transfer_calls nm lines = []) \<and>
            (\<forall>c \<in> set lc.
               \<exists>l n n' w. n \<noteq> n' \<and> (n, l) \<in> set df \<and> (n', l) \<in> set df \<and> 2 \<le> w \<and> w \<le> 8 \<and>
                 c = (station_id \<lparr>name = n, line = l\<rparr>, station_id \<lparr>name = n', line = l\<rparr>, w)) \<and>
            (\<forall>c \<in> set (tpre @ tpost).
               \<exists>n l l'. n \<noteq> nm \<and> l \<noteq> l' \<and> (n, l) \<in> set df \<and> (n, l') \<in> set df \<and>
                 c = (station_id \<lparr>name = n, line = l\<rparr>, station_id \<lparr>name = n, line = l'\<rparr>, 5)) \<and>
            (distinct (map row_id df) \<longrightarrow>
               (\<forall>i < length lines.
                  adjacent G (station_id \<lparr>name = nm, line = lines ! i\<rparr>) =
                    adjacent g2 (station_id \<lparr>name = nm, line = lines ! i\<rparr>) @
                    map (\<lambda>j. (station_id \<lparr>name = nm, line = lines ! j\<rparr>, 5))
                      ([0..<i] @ [Suc i..<length lines]) \<and>
                  (\<forall>e \<in> set (adjacent g2 (station_id \<lparr>name = nm, line = lines ! i\<rparr>)).
                     \<exists>n' w. n' \<noteq> nm \<and> (n', lines ! i) \<in> set df \<and> 2 \<le> w \<and> w \<le> 8 \<and>
                       e = (station_id \<lparr>name = n', line = lines ! i\<rparr>, w))) \<and>
               (\<Sum>i < length lines.
                  length (adjacent G (station_id \<lparr>name = nm, line = lines ! i\<rparr>)) -
                  length (adjacent g2 (station_id \<lparr>name = nm, line = lines ! i\<rparr>))) =
                 length lines * (length lines - 1) \<and>
               (length lines = 1 \<longrightarrow>
                  adjacent G (station_id \<lparr>name = nm, line = lines ! 0\<rparr>) =
                    adjacent g2 (station_id \<lparr>name = nm, line = lines ! 0\<rparr>))))"
proof -
  let ?cs = "transfer_calls nm lines"
  let ?pair = "\<lambda>c :: call. {fst c, fst (snd c)}"
  let ?sid = "\<lambda>i. station_id \<lparr>name = nm, line = lines ! i\<rparr>"
  let ?L = "length lines"
  \<comment> \<open>the lines of the station\<close>
  have c1: "distinct lines"
    unfolding assms(2,3) by (rule lines_of_station(1)[OF assms(1)])
  have c2: "set lines = {l. (nm, l) \<in> set df}"
    unfolding assms(2,3) by (rule lines_of_station(2)[OF assms(1)])
  have c3: "length lines = card {l. (nm, l) \<in> set df}"
    using c1 c2 by (metis distinct_card)
  \<comment> \<open>the group\<close>
  from assms(4) obtain r where "r \<in> set grp" by (cases grp) (auto simp: assms(3))
  then have r: "r \<in> set df" "Station r = nm" by (simp_all add: assms(2))
  from groupby_split[OF r(1), of Station] r(2) assms(2) obtain spre spost where
    gs: "groupby Station df = spre @ [(nm, grp)] @ spost" and
    once: "nm \<notin> fst ` set (spre @ spost)" by auto
  define lc where "lc = concat (map snd (lines_calls rnd (groupby Line df) 0))"
  define tpre where "tpre = concat (map (\<lambda>sg. transfer_calls (fst sg) (map Line (snd sg))) spre)"
  define tpost where "tpost = concat (map (\<lambda>sg. transfer_calls (fst sg) (map Line (snd sg))) spost)"
  have split: "concat (map snd (stations_calls df)) = tpre @ ?cs @ tpost"
    unfolding stations_calls_def gs by (simp add: tpre_def tpost_def comp_def assms(3))
  \<comment> \<open>the two passes\<close>
  from build_passes[of rnd df] obtain g2 drawn G where
    p1: "connect_lines rnd df (add_stations df Graph, 0) = Inr (g2, drawn)" and
    a2: "\<forall>v. adjacent g2 v = entries lc v" and
    p2: "add_transfers df g2 = Inr G" and
    aG: "\<forall>v. adjacent G v = adjacent g2 v @ entries (tpre @ ?cs @ tpost) v" and
    bg: "build_graph df rnd = Inr G"
    unfolding split lc_def by blast
  \<comment> \<open>how many calls for the station, and which\<close>
  have c6: "length ?cs = ?L * (?L - 1) div 2"
    by (rule length_transfer_calls)
  have c9: "?pair ` set ?cs =
           {{station_id \<lparr>name = nm, line = l1\<rparr>, station_id \<lparr>name = nm, line = l2\<rparr>} | l1 l2.
              l1 \<in> set lines \<and> l2 \<in> set lines \<and> l1 \<noteq> l2}"
    by (rule transfer_pairs[OF c1])
  have "card (set (map ?pair ?cs)) = length (map ?pair ?cs)"
    using c9 card_transfer_pairs[OF c1, of nm] c6 by simp
  then have c8: "distinct (map ?pair ?cs)" by (rule card_distinct)
  have c7: "\<forall>c \<in> set ?cs. snd (snd c) = 5 \<and> fst c \<noteq> fst (snd c)"
  proof
    fix c assume "c \<in> set ?cs"
    then obtain i j where ij: "i < j" "j < length lines"
      and c: "c = (nm @ '' ('' @ lines ! i @ '')'', nm @ '' ('' @ lines ! j @ '')'', 5)"
      unfolding transfer_calls_set by auto
    have "lines ! i \<noteq> lines ! j" using c1 ij by (simp add: nth_eq_iff_index_eq)
    then show "snd (snd c) = 5 \<and> fst c \<noteq> fst (snd c)" by (simp add: c)
  qed
  have c10: "?L = 1 \<longrightarrow> ?cs = []" using c6 by auto
  \<comment> \<open>the other calls\<close>
  have lines: "\<exists>l n n' w. n \<noteq> n' \<and> (n, l) \<in> set df \<and> (n', l) \<in> set df \<and> 2 \<le> w \<and> w \<le> 8 \<and>
                 c = (station_id \<lparr>name = n, line = l\<rparr>, station_id \<lparr>name = n', line = l\<rparr>, w)"
    if "c \<in> set lc" for c
    using lines_calls_shape[OF assms(1) subset_refl, of c rnd 0] that unfolding lc_def by blast
  then have c11: "\<forall>c \<in> set lc.
               \<exists>l n n' w. n \<noteq> n' \<and> (n, l) \<in> set df \<and> (n', l) \<in> set df \<and> 2 \<le> w \<and> w \<le> 8 \<and>
                 c = (station_id \<lparr>name = n, line = l\<rparr>, station_id \<lparr>name = n', line = l\<rparr>, w)"
    by blast
  have others: "\<exists>n l l'. n \<noteq> nm \<and> l \<noteq> l' \<and> (n, l) \<in> set df \<and> (n, l') \<in> set df \<and>
                 c = (station_id \<lparr>name = n, line = l\<rparr>, station_id \<lparr>name = n, line = l'\<rparr>, 5)"
    if "c \<in> set (tpre @ tpost)" for c
  proof -
    from that consider "c \<in> set tpre" | "c \<in> set tpost" by auto
    then obtain gs' where sub: "set gs' \<subseteq> set (spre @ spost)"
      and c: "c \<in> set (concat (map (\<lambda>sg. transfer_calls (fst sg) (map Line (snd sg))) gs'))"
    proof cases
      case 1
      then show ?thesis using that[of spre] by (simp add: tpre_def)
    next
      case 2
      then show ?thesis using that[of spost] by (simp add: tpost_def)
    qed
    from sub have "set gs' \<subseteq> set (groupby Station df)" unfolding gs by auto
    from stations_calls_shape[OF assms(1) this c] obtain n l l' where
      n: "n \<in> fst ` set gs'" and
      s: "l \<noteq> l'" "(n, l) \<in> set df" "(n, l') \<in> set df"
        "c = (station_id \<lparr>name = n, line = l\<rparr>, station_id \<lparr>name = n, line = l'\<rparr>, 5)"
      by blast
    from n sub once have "n \<noteq> nm" by blast
    with s show ?thesis by blast
  qed
  then have c12: "\<forall>c \<in> set (tpre @ tpost).
               \<exists>n l l'. n \<noteq> nm \<and> l \<noteq> l' \<and> (n, l) \<in> set df \<and> (n, l') \<in> set df \<and>
                 c = (station_id \<lparr>name = n, line = l\<rparr>, station_id \<lparr>name = n, line = l'\<rparr>, 5)"
    by blast
  \<comment> \<open>the nodes of the station, when the identifiers tell the rows apart\<close>
  let ?new = "\<lambda>i. map (\<lambda>j. (?sid j, 5::int)) ([0..<i] @ [Suc i..<?L])"
  have c13: "distinct (map row_id df) \<longrightarrow>
               (\<forall>i < ?L.
                  adjacent G (?sid i) = adjacent g2 (?sid i) @ ?new i \<and>
                  (\<forall>e \<in> set (adjacent g2 (?sid i)).
                     \<exists>n' w. n' \<noteq> nm \<and> (n', lines ! i) \<in> set df \<and> 2 \<le> w \<and> w \<le> 8 \<and>
                       e = (station_id \<lparr>name = n', line = lines ! i\<rparr>, w))) \<and>
               (\<Sum>i < ?L. length (adjacent G (?sid i)) - length (adjacent g2 (?sid i))) =
                 ?L * (?L - 1) \<and>
               (?L = 1 \<longrightarrow> adjacent G (?sid 0) = adjacent g2 (?sid 0))"
  proof
    assume ids: "distinct (map row_id df)"
    have node: "adjacent G (?sid i) = adjacent g2 (?sid i) @ ?new i \<and>
                  (\<forall>e \<in> set (adjacent g2 (?sid i)).
                     \<exists>n' w. n' \<noteq> nm \<and> (n', lines ! i) \<in> set df \<and> 2 \<le> w \<and> w \<le> 8 \<and>
                       e = (station_id \<lparr>name = n', line = lines ! i\<rparr>, w))"
      if i: "i < ?L" for i
    proof -
      from i have "lines ! i \<in> set lines" by simp
      then have row: "(nm, lines ! i) \<in> set df" unfolding c2 by simp
      have "\<forall>c \<in> set (tpre @ tpost). fst c \<noteq> ?sid i \<and> fst (snd c) \<noteq> ?sid i"
      proof
        fix c assume "c \<in> set (tpre @ tpost)"
        from others[OF this] obtain n l l' where
          s: "n \<noteq> nm" "(n, l) \<in> set df" "(n, l') \<in> set df"
            "c = (station_id \<lparr>name = n, line = l\<rparr>, station_id \<lparr>name = n, line = l'\<rparr>, 5)"
          by blast
        from row_id_unique[OF ids s(2) row] row_id_unique[OF ids s(3) row] s(1,4)
        show "fst c \<noteq> ?sid i \<and> fst (snd c) \<noteq> ?sid i" by auto
      qed
      then have "entries tpre (?sid i) = []" "entries tpost (?sid i) = []"
        by (simp_all add: entries_empty)
      moreover have "entries ?cs (?sid i) = ?new i"
        using entries_transfer_calls[OF c1 i, of nm] by (simp add: station_id_def)
      ultimately have one: "adjacent G (?sid i) = adjacent g2 (?sid i) @ ?new i"
        using aG by (simp add: entries_append)
      have "\<exists>n' w. n' \<noteq> nm \<and> (n', lines ! i) \<in> set df \<and> 2 \<le> w \<and> w \<le> 8 \<and>
                       e = (station_id \<lparr>name = n', line = lines ! i\<rparr>, w)"
        if "e \<in> set (adjacent g2 (?sid i))" for e
      proof -
        from that a2 have "e \<in> set (entries lc (?sid i))" by simp
        then have "(?sid i, fst e, snd e) \<in> set lc \<or> (fst e, ?sid i, snd e) \<in> set lc"
          using entries_member[of "fst e" "snd e" lc "?sid i"] by simp
        then show ?thesis
        proof
          assume "(?sid i, fst e, snd e) \<in> set lc"
          from lines[OF this] obtain l n n' w where
            s: "n \<noteq> n'" "(n, l) \<in> set df" "(n', l) \<in> set df" "2 \<le> w" "w \<le> 8"
              "?sid i = station_id \<lparr>name = n, line = l\<rparr>"
              "fst e = station_id \<lparr>name = n', line = l\<rparr>" "snd e = w" by auto
          from row_id_unique[OF ids row s(2) s(6)] have "n = nm" "l = lines ! i" by simp_all
          with s have "n' \<noteq> nm \<and> (n', lines ! i) \<in> set df \<and> 2 \<le> w \<and> w \<le> 8 \<and>
                       e = (station_id \<lparr>name = n', line = lines ! i\<rparr>, w)"
            by (auto simp: prod_eq_iff)
          then show ?thesis by blast
        next
          assume "(fst e, ?sid i, snd e) \<in> set lc"
          from lines[OF this] obtain l n n' w where
            s: "n \<noteq> n'" "(n, l) \<in> set df" "(n', l) \<in> set df" "2 \<le> w" "w \<le> 8"
              "?sid i = station_id \<lparr>name = n', line = l\<rparr>"
              "fst e = station_id \<lparr>name = n, line = l\<rparr>" "snd e = w" by auto
          from row_id_unique[OF ids row s(3) s(6)] have "n' = nm" "l = lines ! i" by simp_all
          with s have "n \<noteq> nm \<and> (n, lines ! i) \<in> set df \<and> 2 \<le> w \<and> w \<le> 8 \<and>
                       e = (station_id \<lparr>name = n, line = lines ! i\<rparr>, w)"
            by (auto simp: prod_eq_iff)
          then show ?thesis by blast
        qed
      qed
      with one show ?thesis by blast
    qed
    have "(\<Sum>i < ?L. length (adjacent G (?sid i)) - length (adjacent g2 (?sid i))) =
          (\<Sum>i < ?L. ?L - 1)"
    proof (rule sum.cong[OF refl])
      fix i assume "i \<in> {..<?L}"
      then have i: "i < ?L" by simp
      from node[OF i] have "adjacent G (?sid i) = adjacent g2 (?sid i) @ ?new i"
        by (rule conjunct1)
      then have "length (adjacent G (?sid i)) - length (adjacent g2 (?sid i)) = length (?new i)"
        by simp
      also have "\<dots> = ?L - 1" using i by simp
      finally show "length (adjacent G (?sid i)) - length (adjacent g2 (?sid i)) = ?L - 1" .
    qed
    then have total: "(\<Sum>i < ?L. length (adjacent G (?sid i)) - length (adjacent g2 (?sid i))) =
          ?L * (?L - 1)" by simp
    have single: "?L = 1 \<longrightarrow> adjacent G (?sid 0) = adjacent g2 (?sid 0)"
    proof
      assume l1: "?L = 1"
      then have "0 < ?L" by simp
      from node[OF this] have "adjacent G (?sid 0) = adjacent g2 (?sid 0) @ ?new 0"
        by (rule conjunct1)
      then show "adjacent G (?sid 0) = adjacent g2 (?sid 0)" using l1 by simp
    qed
    have all: "\<forall>i < ?L.
                  adjacent G (?sid i) = adjacent g2 (?sid i) @ ?new i \<and>
                  (\<forall>e \<in> set (adjacent g2 (?sid i)).
                     \<exists>n' w. n' \<noteq> nm \<and> (n', lines ! i) \<in> set df \<and> 2 \<le> w \<and> w \<le> 8 \<and>
                       e = (station_id \<lparr>name = n', line = lines ! i\<rparr>, w))"
      using node by (intro allI impI)
    show "(\<forall>i < ?L.
                  adjacent G (?sid i) = adjacent g2 (?sid i) @ ?new i \<and>
                  (\<forall>e \<in> set (adjacent g2 (?sid i)).
                     \<exists>n' w. n' \<noteq> nm \<and> (n', lines ! i) \<in> set df \<and> 2 \<le> w \<and> w \<le> 8 \<and>
                       e = (station_id \<lparr>name = n', line = lines ! i\<rparr>, w))) \<and>
               (\<Sum>i < ?L. length (adjacent G (?sid i)) - length (adjacent g2 (?sid i))) =
                 ?L * (?L - 1) \<and>
               (?L = 1 \<longrightarrow> adjacent G (?sid 0) = adjacent g2 (?sid 0))"
      by (intro conjI all total single)
  qed
  have ex: "\<exists>spre spost lc tpre tpost g2 drawn G.
            groupby Station df = spre @ [(nm, grp)] @ spost \<and>
            nm \<notin> fst ` set (spre @ spost) \<and>
            connect_lines rnd df (add_stations df Graph, 0) = Inr (g2, drawn) \<and>
            add_transfers df g2 = Inr G \<and>
            build_graph df rnd = Inr G \<and>
            (\<forall>v. adjacent g2 v = entries lc v) \<and>
            (\<forall>v. adjacent G v =
                   adjacent g2 v @ entries (tpre @ transfer_calls nm lines @ tpost) v) \<and>
            length (transfer_calls nm lines) = length lines * (length lines - 1) div 2 \<and>
            (\<forall>c \<in> set (transfer_calls nm lines). snd (snd c) = 5 \<and> fst c \<noteq> fst (snd c)) \<and>
            distinct (map (\<lambda>c. {fst c, fst (snd c)}) (transfer_calls nm lines)) \<and>
            (\<lambda>c. {fst c, fst (snd c)}) ` set (transfer_calls nm lines) =
              {{station_id \<lparr>name = nm, line = l1\<rparr>, station_id \<lparr>name = nm, line = l2\<rparr>} | l1 l2.
                 l1 \<in> set lines \<and> l2 \<in> set lines \<and> l1 \<noteq> l2} \<and>
            (length lines = 1 \<longrightarrow> transfer_calls nm lines = []) \<and>
            (\<forall>c \<in> set lc.
               \<exists>l n n' w. n \<noteq> n' \<and> (n, l) \<in> set df \<and> (n', l) \<in> set df \<and> 2 \<le> w \<and> w \<le> 8 \<and>
                 c = (station_id \<lparr>name = n, line = l\<rparr>, station_id \<lparr>name = n', line = l\<rparr>, w)) \<and>
            (\<forall>c \<in> set (tpre @ tpost).
               \<exists>n l l'. n \<noteq> nm \<and> l \<noteq> l' \<and> (n, l) \<in> set df \<and> (n, l') \<in> set df \<and>
                 c = (station_id \<lparr>name = n, line = l\<rparr>, station_id \<lparr>name = n, line = l'\<rparr>, 5)) \<and>
            (distinct (map row_id df) \<longrightarrow>
               (\<forall>i < length lines.
                  adjacent G (station_id \<lparr>name = nm, line = lines ! i\<rparr>) =
                    adjacent g2 (station_id \<lparr>name = nm, line = lines ! i\<rparr>) @
                    map (\<lambda>j. (station_id \<lparr>name = nm, line = lines ! j\<rparr>, 5))
                      ([0..<i] @ [Suc i..<length lines]) \<and>
                  (\<forall>e \<in> set (adjacent g2 (station_id \<lparr>name = nm, line = lines ! i\<rparr>)).
                     \<exists>n' w. n' \<noteq> nm \<and> (n', lines ! i) \<in> set df \<and> 2 \<le> w \<and> w \<le> 8 \<and>
                       e = (station_id \<lparr>name = n', line = lines ! i\<rparr>, w))) \<and>
               (\<Sum>i < length lines.
                  length (adjacent G (station_id \<lparr>name = nm, line = lines ! i\<rparr>)) -
                  length (adjacent g2 (station_id \<lparr>name = nm, line = lines ! i\<rparr>))) =
                 length lines * (length lines - 1) \<and>
               (length lines = 1 \<longrightarrow>
                  adjacent G (station_id \<lparr>name = nm, line = lines ! 0\<rparr>) =
                    adjacent g2 (station_id \<lparr>name = nm, line = lines ! 0\<rparr>)))"
    apply (rule exI[of _ spre], rule exI[of _ spost], rule exI[of _ lc], rule exI[of _ tpre],
        rule exI[of _ tpost], rule exI[of _ g2], rule exI[of _ drawn], rule exI[of _ G])
    apply (intro conjI)
                  apply (rule gs)
                 apply (rule once)
                apply (rule p1)
               apply (rule p2)
              apply (rule bg)
             apply (rule a2)
            apply (rule aG)
           apply (rule c6)
          apply (rule c7)
         apply (rule c8)
        apply (rule c9)
       apply (rule c10)
      apply (rule c11)
     apply (rule c12)
    apply (rule c13)
    done
  show ?thesis by (intro conjI c1 c2 c3 ex)
qed

theorem transfer_edges_witness:
  "distinct metro_hub \<and> distinct (map row_id metro_hub) \<and>
   map Line (filter (\<lambda>r. Station r = ''Hub'') metro_hub) = [''L1'', ''L2'', ''L3''] \<and>
   map Line (filter (\<lambda>r. Station r = ''Pier'') metro_hub) = [''L1''] \<and>
   length (transfer_calls ''Hub'' [''L1'', ''L2'', ''L3'']) = 3 \<and>
   (\<exists>g2 drawn G.
      connect_lines (\<lambda>i. i) metro_hub (add_stations metro_hub Graph, 0) = Inr (g2, drawn) \<and>
      build_graph metro_hub (\<lambda>i. i) = Inr G \<and>
      adjacent g2 ''Hub (L1)'' = [(''Pier (L1)'', 2)] \<and>
      adjacent g2 ''Hub (L2)'' = [] \<and>
      adjacent g2 ''Hub (L3)'' = [] \<and>
      adjacent g2 ''Pier (L1)'' = [(''Hub (L1)'', 2)] \<and>
      adjacent G ''Hub (L1)'' = [(''Pier (L1)'', 2), (''Hub (L2)'', 5), (''Hub (L3)'', 5)] \<and>
      adjacent G ''Hub (L2)'' = [(''Hub (L1)'', 5), (''Hub (L3)'', 5)] \<and>
      adjacent G ''Hub (L3)'' = [(''Hub (L1)'', 5), (''Hub (L2)'', 5)] \<and>
      adjacent G ''Pier (L1)'' = [(''Hub (L1)'', 2)])"
proof -
  let ?lines = "[''L1'', ''L2'', ''L3'']"
  let ?g2 = "\<lparr>nodes =
         [(''Hub (L1)'', \<lparr>name = ''Hub'', line = ''L1''\<rparr>),
          (''Hub (L2)'', \<lparr>name = ''Hub'', line = ''L2''\<rparr>),
          (''Hub (L3)'', \<lparr>name = ''Hub'', line = ''L3''\<rparr>),
          (''Pier (L1)'', \<lparr>name = ''Pier'', line = ''L1''\<rparr>)],
         edges =
           [(''Hub (L1)'', [(''Pier (L1)'', 2)]), (''Hub (L2)'', []),
            (''Hub (L3)'', []), (''Pier (L1)'', [(''Hub (L1)'', 2)])]\<rparr>"
  have h1: "distinct metro_hub" by (simp add: metro_hub_def)
  have h2: "distinct (map row_id metro_hub)" by code_simp
  have h3: "?lines = map Line (filter (\<lambda>r. Station r = ''Hub'') metro_hub)" by code_simp
  have h3': "[''L1''] = map Line (filter (\<lambda>r. Station r = ''Pier'') metro_hub)" by code_simp
  have h4: "1 \<le> length ?lines" "1 \<le> length [''L1'']" by simp_all
  have cl: "connect_lines (\<lambda>i. i) metro_hub (add_stations metro_hub Graph, 0) = Inr (?g2, 1)"
    by code_simp
  have s: "station_id \<lparr>name = ''Hub'', line = ''L1''\<rparr> = ''Hub (L1)''"
    "station_id \<lparr>name = ''Hub'', line = ''L2''\<rparr> = ''Hub (L2)''"
    "station_id \<lparr>name = ''Hub'', line = ''L3''\<rparr> = ''Hub (L3)''"
    "station_id \<lparr>name = ''Pier'', line = ''L1''\<rparr> = ''Pier (L1)''"
    by (simp_all add: station_id_def)
  \<comment> \<open>the station on three lines\<close>
  from transfer_edges[OF h1 refl h3 h4(1), of "\<lambda>i. i", THEN conjunct2, THEN conjunct2,
      THEN conjunct2]
  obtain g2 drawn G where
    p1: "connect_lines (\<lambda>i. i) metro_hub (add_stations metro_hub Graph, 0) = Inr (g2, drawn)" and
    bg: "build_graph metro_hub (\<lambda>i. i) = Inr G" and
    len: "length (transfer_calls ''Hub'' ?lines) = length ?lines * (length ?lines - 1) div 2" and
    imp: "distinct (map row_id metro_hub) \<longrightarrow>
          (\<forall>i < length ?lines.
             adjacent G (station_id \<lparr>name = ''Hub'', line = ?lines ! i\<rparr>) =
               adjacent g2 (station_id \<lparr>name = ''Hub'', line = ?lines ! i\<rparr>) @
               map (\<lambda>j. (station_id \<lparr>name = ''Hub'', line = ?lines ! j\<rparr>, 5))
                 ([0..<i] @ [Suc i..<length ?lines]) \<and>
             (\<forall>e \<in> set (adjacent g2 (station_id \<lparr>name = ''Hub'', line = ?lines ! i\<rparr>)).
                \<exists>n' w. n' \<noteq> ''Hub'' \<and> (n', ?lines ! i) \<in> set metro_hub \<and> 2 \<le> w \<and> w \<le> 8 \<and>
                  e = (station_id \<lparr>name = n', line = ?lines ! i\<rparr>, w))) \<and>
          (\<Sum>i < length ?lines.
             length (adjacent G (station_id \<lparr>name = ''Hub'', line = ?lines ! i\<rparr>)) -
             length (adjacent g2 (station_id \<lparr>name = ''Hub'', line = ?lines ! i\<rparr>))) =
            length ?lines * (length ?lines - 1) \<and>
          (length ?lines = 1 \<longrightarrow>
             adjacent G (station_id \<lparr>name = ''Hub'', line = ?lines ! 0\<rparr>) =
               adjacent g2 (station_id \<lparr>name = ''Hub'', line = ?lines ! 0\<rparr>))"
    by (elim exE conjE) (rule that)
  from imp[THEN mp, OF h2] have hub: "\<forall>i < length ?lines.
             adjacent G (station_id \<lparr>name = ''Hub'', line = ?lines ! i\<rparr>) =
               adjacent g2 (station_id \<lparr>name = ''Hub'', line = ?lines ! i\<rparr>) @
               map (\<lambda>j. (station_id \<lparr>name = ''Hub'', line = ?lines ! j\<rparr>, 5))
                 ([0..<i] @ [Suc i..<length ?lines]) \<and>
             (\<forall>e \<in> set (adjacent g2 (station_id \<lparr>name = ''Hub'', line = ?lines ! i\<rparr>)).
                \<exists>n' w. n' \<noteq> ''Hub'' \<and> (n', ?lines ! i) \<in> set metro_hub \<and> 2 \<le> w \<and> w \<le> 8 \<and>
                  e = (station_id \<lparr>name = n', line = ?lines ! i\<rparr>, w))"
    by (rule conjunct1)
  from p1 cl have g2: "g2 = ?g2" by simp
  have a2: "adjacent g2 ''Hub (L1)'' = [(''Pier (L1)'', 2)]" "adjacent g2 ''Hub (L2)'' = []"
    "adjacent g2 ''Hub (L3)'' = []" "adjacent g2 ''Pier (L1)'' = [(''Hub (L1)'', 2)]"
    unfolding g2 by (simp_all add: adjacent_def)
  have u: "[Suc 0..<3] = [1, 2]" "[2..<3] = [2]" "[0..<2] = [0, 1]" "[0..<Suc 0] = [0]"
    by (simp_all add: upt_rec)
  from hub[rule_format, of 0, THEN conjunct1]
  have A0: "adjacent G ''Hub (L1)'' = [(''Pier (L1)'', 2), (''Hub (L2)'', 5), (''Hub (L3)'', 5)]"
    by (simp add: s a2 u)
  from hub[rule_format, of 1, THEN conjunct1]
  have A1: "adjacent G ''Hub (L2)'' = [(''Hub (L1)'', 5), (''Hub (L3)'', 5)]"
    by (simp add: s a2 u)
  from hub[rule_format, of 2, THEN conjunct1]
  have A2: "adjacent G ''Hub (L3)'' = [(''Hub (L1)'', 5), (''Hub (L2)'', 5)]"
    by (simp add: s a2 u)
  \<comment> \<open>the station on one line\<close>
  from transfer_edges[OF h1 refl h3' h4(2), of "\<lambda>i. i"] have
    "\<exists>g2 drawn G.
       connect_lines (\<lambda>i. i) metro_hub (add_stations metro_hub Graph, 0) = Inr (g2, drawn) \<and>
       build_graph metro_hub (\<lambda>i. i) = Inr G \<and>
       (distinct (map row_id metro_hub) \<longrightarrow>
          (length [''L1''] = 1 \<longrightarrow>
             adjacent G (station_id \<lparr>name = ''Pier'', line = [''L1''] ! 0\<rparr>) =
               adjacent g2 (station_id \<lparr>name = ''Pier'', line = [''L1''] ! 0\<rparr>)))"
    by (elim conjE exE) blast
  then obtain g2' drawn' G' where
    "connect_lines (\<lambda>i. i) metro_hub (add_stations metro_hub Graph, 0) = Inr (g2', drawn')"
    "build_graph metro_hub (\<lambda>i. i) = Inr G'"
    "adjacent G' (station_id \<lparr>name = ''Pier'', line = [''L1''] ! 0\<rparr>) =
       adjacent g2' (station_id \<lparr>name = ''Pier'', line = [''L1''] ! 0\<rparr>)"
    using h2 by auto
  with p1 bg have A3: "adjacent G ''Pier (L1)'' = [(''Hub (L1)'', 2)]"
    by (simp add: s a2)
  have "connect_lines (\<lambda>i. i) metro_hub (add_stations metro_hub Graph, 0) = Inr (g2, drawn) \<and>
      build_graph metro_hub (\<lambda>i. i) = Inr G \<and>
      adjacent g2 ''Hub (L1)'' = [(''Pier (L1)'', 2)] \<and>
      adjacent g2 ''Hub (L2)'' = [] \<and>
      adjacent g2 ''Hub (L3)'' = [] \<and>
      adjacent g2 ''Pier (L1)'' = [(''Hub (L1)'', 2)] \<and>
      adjacent G ''Hub (L1)'' = [(''Pier (L1)'', 2), (''Hub (L2)'', 5), (''Hub (L3)'', 5)] \<and>
      adjacent G ''Hub (L2)'' = [(''Hub (L1)'', 5), (''Hub (L3)'', 5)] \<and>
      adjacent G ''Hub (L3)'' = [(''Hub (L1)'', 5), (''Hub (L2)'', 5)] \<and>
      adjacent G ''Pier (L1)'' = [(''Hub (L1)'', 2)]"
    by (intro conjI p1 bg a2 A0 A1 A2 A3)
  then have "\<exists>g2 drawn G.
      connect_lines (\<lambda>i. i) metro_hub (add_stations metro_hub Graph, 0) = Inr (g2, drawn) \<and>
      build_graph metro_hub (\<lambda>i. i) = Inr G \<and>
      adjacent g2 ''Hub (L1)'' = [(''Pier (L1)'', 2)] \<and>
      adjacent g2 ''Hub (L2)'' = [] \<and>
      adjacent g2 ''Hub (L3)'' = [] \<and>
      adjacent g2 ''Pier (L1)'' = [(''Hub (L1)'', 2)] \<and>
      adjacent G ''Hub (L1)'' = [(''Pier (L1)'', 2), (''Hub (L2)'', 5), (''Hub (L3)'', 5)] \<and>
      adjacent G ''Hub (L2)'' = [(''Hub (L1)'', 5), (''Hub (L3)'', 5)] \<and>
      adjacent G ''Hub (L3)'' = [(''Hub (L1)'', 5), (''Hub (L2)'', 5)] \<and>
      adjacent G ''Pier (L1)'' = [(''Hub (L1)'', 2)]"
    by (intro exI)
  moreover from len have "length (transfer_calls ''Hub'' ?lines) = 3" by simp
  ultimately show ?thesis using h1 h2 h3[symmetric] h3'[symmetric] by (intro conjI)
qed

lemma set_fresh: "set (fresh vis es) = fst ` set es - vis"
  by (induction es arbitrary: vis) auto

lemma fold_visit:
  "fold (visit c) es (q, vis, par) =
     (q @ fresh vis es, vis \<union> set (fresh vis es),
      (\<lambda>x. if x \<in> set (fresh vis es) then Some (Some c) else par x))"
proof (induction es arbitrary: q vis par)
  case Nil
  then show ?case by simp
next
  case (Cons e es)
  obtain n t where e: "e = (n, t)" by (cases e) auto
  show ?case
  proof (cases "n \<in> vis")
    case True
    then show ?thesis by (simp add: e visit_simp Cons)
  next
    case False
    have "n \<notin> set (fresh (insert n vis) es)" by (simp add: set_fresh)
    then show ?thesis using False
      by (auto simp: e visit_simp Cons fun_eq_iff)
  qed
qed

lemma adjacent_Some: "map_of (edges g) c = Some nbrs \<Longrightarrow> adjacent g c = nbrs"
  by (simp add: adjacent_def)

lemma bfs_inv_step:
  assumes ok: "named g \<subseteq> fst ` set (edges g)"
    and inv: "bfs_inv g S T dep (c # q, vis, par)"
    and c: "c \<notin> T"
    and m: "map_of (edges g) c = Some nbrs"
  shows "\<exists>dep'. bfs_inv g S T dep' (fold (visit c) nbrs (q, vis, par))"
proof -
  let ?new = "fresh vis nbrs"
  define dep' where "dep' = (\<lambda>x. if x \<in> set ?new then Suc (dep c) else dep x)"
  from inv have
    i1: "set (c # q) \<subseteq> vis" and i2: "vis \<subseteq> fst ` set (edges g)" and i3: "S \<subseteq> vis"
    and i4: "\<forall>v \<in> S. par v = Some None \<and> dep v = 0"
    and i4': "\<forall>v \<in> vis - S. \<exists>u \<in> vis. par v = Some (Some u) \<and> edge g u v \<and> dep v = Suc (dep u)"
    and i5: "sorted (map dep (c # q))"
    and i6: "\<forall>v \<in> vis. \<forall>h \<in> set (c # q). dep v \<le> Suc (dep h)"
    and i7: "\<forall>v \<in> vis - set (c # q). \<forall>u. edge g v u \<longrightarrow> u \<in> vis \<and> dep u \<le> Suc (dep v)"
    and i8: "\<forall>v \<in> vis - set (c # q). v \<notin> T"
    unfolding bfs_inv_def by auto
  have new: "set ?new = fst ` set nbrs - vis" by (rule set_fresh)
  have cv: "c \<in> vis" using i1 by simp
  have old: "dep' x = dep x" if "x \<in> vis" for x using that new by (simp add: dep'_def)
  have nw: "dep' x = Suc (dep c)" if "x \<in> set ?new" for x using that by (simp add: dep'_def)
  have adj: "adjacent g c = nbrs" using m by (rule adjacent_Some)
  have ec: "edge g c x \<longleftrightarrow> x \<in> fst ` set nbrs" for x by (simp add: edge_def adj)
  from m have "(c, nbrs) \<in> set (edges g)" by (rule map_of_SomeD)
  then have "fst ` set nbrs \<subseteq> named g" by (force simp: named_def)
  with ok new have nk: "set ?new \<subseteq> fst ` set (edges g)" by auto
  let ?par = "\<lambda>x. if x \<in> set ?new then Some (Some c) else par x"
  have c1: "set (q @ ?new) \<subseteq> vis \<union> set ?new" using i1 by auto
  have c2: "vis \<union> set ?new \<subseteq> fst ` set (edges g)" using i2 nk by auto
  have c3: "S \<subseteq> vis \<union> set ?new" using i3 by auto
  have c4: "\<forall>v \<in> S. ?par v = Some None \<and> dep' v = 0"
  proof
    fix v assume v: "v \<in> S"
    then have vv: "v \<in> vis" using i3 by auto
    then have "v \<notin> set ?new" using new by simp
    then show "?par v = Some None \<and> dep' v = 0" using i4 v old[OF vv] by simp
  qed
  have c4': "\<forall>v \<in> (vis \<union> set ?new) - S.
      \<exists>u \<in> vis \<union> set ?new. ?par v = Some (Some u) \<and> edge g u v \<and> dep' v = Suc (dep' u)"
  proof
    fix v assume v: "v \<in> (vis \<union> set ?new) - S"
    show "\<exists>u \<in> vis \<union> set ?new. ?par v = Some (Some u) \<and> edge g u v \<and> dep' v = Suc (dep' u)"
    proof (cases "v \<in> set ?new")
      case True
      then have "edge g c v" using new ec by auto
      with True cv old[OF cv] nw[OF True] show ?thesis by auto
    next
      case False
      with v have vv: "v \<in> vis" "v \<in> vis - S" by simp_all
      from i4' vv(2) obtain u where
        u: "u \<in> vis" "par v = Some (Some u)" "edge g u v" "dep v = Suc (dep u)" by blast
      then show ?thesis using False old[OF vv(1)] old[OF u(1)] by auto
    qed
  qed
  have qv: "set q \<subseteq> vis" using i1 by simp
  have mq: "map dep' q = map dep q" using qv old by (auto simp: subset_iff)
  have mn: "\<forall>y \<in> set (map dep' ?new). y = Suc (dep c)" using nw by auto
  have c5: "sorted (map dep' (q @ ?new))"
  proof -
    have "sorted (map dep q)" using i5 by simp
    moreover have "sorted (map dep' ?new)" using mn
      by (simp add: sorted_wrt_iff_nth_less)
    moreover have "\<forall>x \<in> set (map dep q). \<forall>y \<in> set (map dep' ?new). x \<le> y"
      using i6 qv mn by auto
    ultimately show ?thesis by (simp add: sorted_append mq)
  qed
  have ch: "dep c \<le> dep h" if "h \<in> set q" for h using i5 that by auto
  have c6: "\<forall>v \<in> vis \<union> set ?new. \<forall>h \<in> set (q @ ?new). dep' v \<le> Suc (dep' h)"
  proof (intro ballI)
    fix v h assume v: "v \<in> vis \<union> set ?new" and h: "h \<in> set (q @ ?new)"
    show "dep' v \<le> Suc (dep' h)"
    proof (cases "h \<in> set ?new")
      case hn: True
      show ?thesis
      proof (cases "v \<in> set ?new")
        case True
        then show ?thesis using nw hn by simp
      next
        case False
        with v have vv: "v \<in> vis" by simp
        then have "dep v \<le> Suc (dep c)" using i6 by simp
        then show ?thesis using old[OF vv] nw[OF hn] by simp
      qed
    next
      case hn: False
      with h have hq: "h \<in> set q" by simp
      then have hv: "h \<in> vis" using qv by auto
      show ?thesis
      proof (cases "v \<in> set ?new")
        case True
        then show ?thesis using nw[OF True] old[OF hv] ch[OF hq] by simp
      next
        case False
        with v have vv: "v \<in> vis" by simp
        then have "dep v \<le> Suc (dep h)" using i6 hq by simp
        then show ?thesis using old[OF vv] old[OF hv] by simp
      qed
    qed
  qed
  have c7: "\<forall>v \<in> (vis \<union> set ?new) - set (q @ ?new). \<forall>u. edge g v u \<longrightarrow>
      u \<in> vis \<union> set ?new \<and> dep' u \<le> Suc (dep' v)"
  proof (intro ballI allI impI)
    fix v u assume v: "v \<in> (vis \<union> set ?new) - set (q @ ?new)" and e: "edge g v u"
    then have vv: "v \<in> vis" "v \<notin> set q" by auto
    show "u \<in> vis \<union> set ?new \<and> dep' u \<le> Suc (dep' v)"
    proof (cases "v = c")
      case True
      with e have un: "u \<in> fst ` set nbrs" using ec by simp
      show ?thesis
      proof (cases "u \<in> vis")
        case uv: True
        then have "dep u \<le> Suc (dep c)" using i6 by simp
        then show ?thesis using uv old[OF uv] old[OF cv] True by simp
      next
        case False
        with un have "u \<in> set ?new" using new by simp
        then show ?thesis using nw old[OF cv] True by simp
      qed
    next
      case False
      with vv have "v \<in> vis - set (c # q)" by simp
      with i7 e have "u \<in> vis" "dep u \<le> Suc (dep v)" by blast+
      then show ?thesis using old vv(1) by simp
    qed
  qed
  have c8: "\<forall>v \<in> (vis \<union> set ?new) - set (q @ ?new). v \<notin> T"
  proof
    fix v assume "v \<in> (vis \<union> set ?new) - set (q @ ?new)"
    then have vv: "v \<in> vis" "v \<notin> set q" by auto
    show "v \<notin> T"
    proof (cases "v = c")
      case True
      then show ?thesis using c by simp
    next
      case False
      with vv i8 show ?thesis by simp
    qed
  qed
  have "bfs_inv g S T dep' (q @ ?new, vis \<union> set ?new, ?par)"
    unfolding bfs_inv_def prod.case by (intro conjI c1 c2 c3 c4 c4' c5 c6 c7 c8)
  then show ?thesis unfolding fold_visit by blast
qed

lemma bfs_loop_result:
  assumes "named g \<subseteq> fst ` set (edges g)" and "bfs_inv g S (set end_ids) dep s"
  shows "(\<exists>c par q vis dep'. bfs_loop g end_ids s = Inr (Some (c, par)) \<and> c \<in> set end_ids \<and>
            bfs_inv g S (set end_ids) dep' (c # q, vis, par)) \<or>
         (\<exists>vis par dep'. bfs_loop g end_ids s = Inr None \<and>
            bfs_inv g S (set end_ids) dep' ([], vis, par))"
  using assms
proof (induction g end_ids s arbitrary: dep rule: bfs_loop.induct)
  case (1 g end_ids visited parent)
  then show ?case by auto
next
  case (2 g end_ids current queue visited parent)
  show ?case
  proof (cases "current \<in> set end_ids")
    case True
    with "2.prems"(2) show ?thesis by auto
  next
    case False
    from "2.prems"(2) have "current \<in> fst ` set (edges g)"
      unfolding bfs_inv_def by auto
    then obtain nbrs where m: "map_of (edges g) current = Some nbrs"
      by (metis domD dom_map_of_conv_image_fst)
    from bfs_inv_step[OF "2.prems"(1) "2.prems"(2) False m] obtain dep' where
      "bfs_inv g S (set end_ids) dep' (fold (visit current) nbrs (queue, visited, parent))"
      by blast
    from "2.IH"[OF False m "2.prems"(1) this] show ?thesis
      using False m by simp
  qed
qed

lemma fold_seed:
  "fold seed ids (q, vis, par) =
     (q @ ids, vis \<union> set ids, (\<lambda>x. if x \<in> set ids then Some None else par x))"
proof (induction ids arbitrary: q vis par)
  case Nil
  then show ?case by simp
next
  case (Cons a ids)
  have "seed a (q, vis, par) = (q @ [a], insert a vis, par(a \<mapsto> None))"
    by (simp add: seed_def)
  then show ?case by (auto simp: Cons fun_eq_iff)
qed

lemma bfs_inv_initial:
  assumes "set ids \<subseteq> fst ` set (edges g)"
  shows "bfs_inv g (set ids) T (\<lambda>x. 0) (fold seed ids ([], {}, Map.empty))"
proof -
  have "sorted (map (\<lambda>x. 0::nat) ids)" by (induction ids) auto
  with assms show ?thesis unfolding fold_seed bfs_inv_def by simp
qed

lemma walk_snoc:
  "p \<noteq> [] \<Longrightarrow> walk g (p @ [x]) \<longleftrightarrow> walk g p \<and> edge g (last p) x"
  by (induction g p rule: walk.induct) auto

lemma trace_parent_inv:
  assumes "bfs_inv g S T dep (q, vis, par)" and "[] \<notin> fst ` set (edges g)" and "v \<in> vis"
  shows "\<exists>p. trace_parent par (Some v) acc = Some (Inr (acc @ p)) \<and> p \<noteq> [] \<and> hd p = v \<and>
             last p \<in> S \<and> walk g (rev p) \<and> length p = Suc (dep v)"
  using assms(3)
proof (induction "dep v" arbitrary: v acc)
  case 0
  from assms(1) have i2: "vis \<subseteq> fst ` set (edges g)"
    and i4: "\<forall>v \<in> S. par v = Some None \<and> dep v = 0"
    and i4': "\<forall>v \<in> vis - S. \<exists>u \<in> vis. par v = Some (Some u) \<and> edge g u v \<and> dep v = Suc (dep u)"
    unfolding bfs_inv_def by auto
  have ne: "v \<noteq> []" using "0.prems" i2 assms(2) by auto
  have "v \<in> S" using i4' "0.prems" "0.hyps" by force
  with i4 have "par v = Some None" by simp
  then have "trace_parent par (Some v) acc = Some (Inr (acc @ [v]))"
    using ne by (simp add: trace_parent.simps[of par "Some v"] trace_parent.simps[of par None])
  then show ?case using \<open>v \<in> S\<close> "0.hyps" by (intro exI[of _ "[v]"]) simp
next
  case (Suc n)
  from assms(1) have i2: "vis \<subseteq> fst ` set (edges g)"
    and i4: "\<forall>v \<in> S. par v = Some None \<and> dep v = 0"
    and i4': "\<forall>v \<in> vis - S. \<exists>u \<in> vis. par v = Some (Some u) \<and> edge g u v \<and> dep v = Suc (dep u)"
    unfolding bfs_inv_def by auto
  have ne: "v \<noteq> []" using Suc.prems i2 assms(2) by auto
  have "v \<notin> S" using i4 Suc.hyps(2) by force
  with i4' Suc.prems obtain u where
    u: "u \<in> vis" "par v = Some (Some u)" "edge g u v" "dep v = Suc (dep u)" by blast
  then have "n = dep u" using Suc.hyps(2) by simp
  from Suc.hyps(1)[OF this u(1), of "acc @ [v]"] obtain p where
    p: "trace_parent par (Some u) (acc @ [v]) = Some (Inr ((acc @ [v]) @ p))" "p \<noteq> []"
      "hd p = u" "last p \<in> S" "walk g (rev p)" "length p = Suc (dep u)" by blast
  have "trace_parent par (Some v) acc = Some (Inr (acc @ v # p))"
    using ne u(2) p(1) by (simp add: trace_parent.simps[of par "Some v"])
  moreover have "walk g (rev (v # p))"
    using p(2,3,5) u(3) by (simp add: walk_snoc last_rev)
  ultimately show ?case using p(2,4,6) u(4) by (intro exI[of _ "v # p"]) simp
qed

lemma bfs_inv_shortest:
  assumes inv: "bfs_inv g S T dep (c # q, vis, par)"
    and "walk g p" and "hd p \<in> S" and "length p \<le> dep c"
  shows "last p \<in> vis - set (c # q) \<and> dep (last p) \<le> length p - 1"
  using assms(2-)
proof (induction p rule: rev_induct)
  case Nil
  then show ?case by simp
next
  case (snoc x p)
  from inv have i3: "S \<subseteq> vis"
    and i4: "\<forall>v \<in> S. par v = Some None \<and> dep v = 0"
    and i5: "sorted (map dep (c # q))"
    and i7: "\<forall>v \<in> vis - set (c # q). \<forall>u. edge g v u \<longrightarrow> u \<in> vis \<and> dep u \<le> Suc (dep v)"
    unfolding bfs_inv_def by auto
  have low: "dep c \<le> dep h" if "h \<in> set (c # q)" for h using i5 that by auto
  show ?case
  proof (cases "p = []")
    case True
    with snoc.prems have x: "x \<in> S" by simp
    then have "dep x = 0" "x \<in> vis" using i4 i3 by auto
    moreover have "x \<notin> set (c # q)" using low[of x] snoc.prems(3) \<open>dep x = 0\<close> by auto
    ultimately show ?thesis by simp
  next
    case False
    with snoc.prems have w: "walk g p" "edge g (last p) x" "hd p \<in> S" "length p \<le> dep c"
      by (simp_all add: walk_snoc)
    from snoc.IH[OF w(1,3,4)] have l: "last p \<in> vis - set (c # q)" "dep (last p) \<le> length p - 1"
      by simp_all
    from i7 l(1) w(2) have x: "x \<in> vis" "dep x \<le> Suc (dep (last p))" by blast+
    have "dep x \<le> length p" using x(2) l(2) False by (cases p) auto
    moreover have "x \<notin> set (c # q)" using low[of x] snoc.prems(3) \<open>dep x \<le> length p\<close> by auto
    ultimately show ?thesis using x(1) by simp
  qed
qed

lemma bfs_inv_exhausted:
  assumes inv: "bfs_inv g S T dep ([], vis, par)" and "walk g p" and "hd p \<in> S"
  shows "last p \<in> vis \<and> last p \<notin> T"
proof -
  from inv have i3: "S \<subseteq> vis"
    and i7: "\<forall>v \<in> vis. \<forall>u. edge g v u \<longrightarrow> u \<in> vis \<and> dep u \<le> Suc (dep v)"
    and i8: "\<forall>v \<in> vis. v \<notin> T"
    unfolding bfs_inv_def by auto
  have "last p \<in> vis" using assms(2,3)
  proof (induction p rule: rev_induct)
    case Nil
    then show ?case by simp
  next
    case (snoc x p)
    show ?case
    proof (cases "p = []")
      case True
      with snoc.prems i3 show ?thesis by auto
    next
      case False
      with snoc.prems have "walk g p" "edge g (last p) x" "hd p \<in> S"
        by (simp_all add: walk_snoc)
      with snoc.IH i7 show ?thesis by auto
    qed
  qed
  with i8 show ?thesis by simp
qed

lemma build_calls_weights:
  assumes "c \<in> set (build_calls df rnd)"
  shows "2 \<le> snd (snd c) \<and> snd (snd c) \<le> 8"
proof -
  have lines: "\<forall>c \<in> set (concat (map snd (lines_calls rnd groups drawn))).
      2 \<le> snd (snd c) \<and> snd (snd c) \<le> 8" for groups drawn
  proof (induction groups arbitrary: drawn)
    case Nil
    then show ?case by simp
  next
    case (Cons lg groups)
    have "\<forall>c \<in> set (line_calls rnd (fst lg) (map Station (sort_values (snd lg))) drawn).
        2 \<le> snd (snd c) \<and> snd (snd c) \<le> 8"
      using randint_range by (auto simp: line_calls_def)
    with Cons show ?case by auto
  qed
  have "\<forall>c \<in> set (concat (map snd (stations_calls df))). snd (snd c) = 5"
    by (auto simp: stations_calls_def transfer_calls_def)
  with lines[of "groupby Line df" 0] assms show ?thesis
    by (fastforce simp: build_calls_def)
qed

lemma row_id_nonempty: "row_id r \<noteq> []"
  by (simp add: row_id_eq)

lemma build_graph_store_ok:
  assumes "build_graph df rnd = Inr g"
  shows "store_ok g"
proof -
  from build_graph_ok[of df rnd] assms have
    d: "distinct (map fst (nodes g))" and k: "map fst (edges g) = map fst (nodes g)"
    and ids: "fst ` set (nodes g) = row_id ` set df"
    and adj: "\<forall>v. adjacent g v = entries (build_calls df rnd) v" by auto
  have keys: "fst ` set (edges g) = row_id ` set df" using k ids by (metis set_map)
  have de: "distinct (map fst (edges g))" using d k by simp
  have nb: "n \<in> fst ` set (edges g) \<and> 0 < w"
    if "kv \<in> set (edges g)" "(n, w) \<in> set (snd kv)" for kv n w
  proof -
    from that(1) de have "map_of (edges g) (fst kv) = Some (snd kv)" by simp
    then have "adjacent g (fst kv) = snd kv" by (rule adjacent_Some)
    with that(2) adj have "(n, w) \<in> set (entries (build_calls df rnd) (fst kv))" by simp
    then consider "(fst kv, n, w) \<in> set (build_calls df rnd)"
      | "(n, fst kv, w) \<in> set (build_calls df rnd)" by (auto simp: entries_member)
    then show ?thesis
    proof cases
      case 1
      from build_calls_endpoints[OF 1] build_calls_weights[OF 1] keys show ?thesis by simp
    next
      case 2
      from build_calls_endpoints[OF 2] build_calls_weights[OF 2] keys show ?thesis by simp
    qed
  qed
  have "named g \<subseteq> fst ` set (edges g)"
    unfolding named_def using nb by fastforce
  moreover have "[] \<notin> fst ` set (edges g)"
    unfolding keys using row_id_nonempty by (metis imageE)
  moreover have "\<forall>kv \<in> set (edges g). \<forall>e \<in> set (snd kv). 0 < snd e"
    using nb by (metis prod.collapse)
  ultimately show ?thesis unfolding store_ok_def using d k by simp
qed

lemma candidates_keys: "store_ok g \<Longrightarrow> set (candidates g nm) \<subseteq> fst ` set (edges g)"
proof -
  assume "store_ok g"
  then have "map fst (edges g) = map fst (nodes g)" by (simp add: store_ok_def)
  then have "fst ` set (edges g) = set (map fst (nodes g))" by (metis set_map)
  then show ?thesis by (auto simp: candidates_def)
qed

lemma find_shortest_path_cases:
  assumes "store_ok g"
  shows "(find_shortest_path g s e = Some (Inr None) \<and>
            (\<forall>p. walk g p \<and> hd p \<in> set (candidates g s) \<longrightarrow> last p \<notin> set (candidates g e))) \<or>
         (\<exists>path. find_shortest_path g s e = Some (Inr (Some path)) \<and> path \<noteq> [] \<and>
            hd path \<in> set (candidates g s) \<and> last path \<in> set (candidates g e) \<and>
            walk g path \<and>
            (\<forall>p. walk g p \<and> hd p \<in> set (candidates g s) \<and> last p \<in> set (candidates g e)
                 \<longrightarrow> length path \<le> length p))"
proof -
  let ?S = "set (candidates g s)" and ?T = "set (candidates g e)"
  let ?s0 = "fold seed (candidates g s) ([], {}, Map.empty)"
  from assms have nk: "named g \<subseteq> fst ` set (edges g)" and ne: "[] \<notin> fst ` set (edges g)"
    by (simp_all add: store_ok_def)
  have i0: "bfs_inv g ?S ?T (\<lambda>x. 0) ?s0"
    by (rule bfs_inv_initial) (rule candidates_keys[OF assms])
  from bfs_loop_result[OF nk i0] consider
    (hit) c par q vis dep where "bfs_loop g (candidates g e) ?s0 = Inr (Some (c, par))"
      "c \<in> ?T" "bfs_inv g ?S ?T dep (c # q, vis, par)"
    | (none) vis par dep where "bfs_loop g (candidates g e) ?s0 = Inr None"
      "bfs_inv g ?S ?T dep ([], vis, par)" by blast
  then show ?thesis
  proof cases
    case hit
    from hit(3) have cv: "c \<in> vis" and i8: "\<forall>v \<in> vis - set (c # q). v \<notin> ?T"
      unfolding bfs_inv_def by auto
    from trace_parent_inv[OF hit(3) ne cv, of "[]"] obtain p where
      p: "trace_parent par (Some c) [] = Some (Inr p)" "p \<noteq> []" "hd p = c"
        "last p \<in> ?S" "walk g (rev p)" "length p = Suc (dep c)" by auto
    have r: "find_shortest_path g s e = Some (Inr (Some (rev p)))"
      using hit(1) p(1) by (simp add: find_shortest_path_def)
    have least: "length (rev p) \<le> length p'"
      if "walk g p'" "hd p' \<in> ?S" "last p' \<in> ?T" for p'
    proof (rule ccontr)
      assume "\<not> length (rev p) \<le> length p'"
      then have "length p' \<le> dep c" using p(6) by simp
      from bfs_inv_shortest[OF hit(3) that(1,2) this] i8 that(3) show False by blast
    qed
    have "hd (rev p) \<in> ?S" "last (rev p) \<in> ?T" "rev p \<noteq> []"
      using p(2,3,4) hit(2) by (simp_all add: hd_rev last_rev)
    with r p(5) least show ?thesis by blast
  next
    case none
    have r: "find_shortest_path g s e = Some (Inr None)"
      using none(1) by (simp add: find_shortest_path_def)
    with bfs_inv_exhausted[OF none(2)] show ?thesis by blast
  qed
qed

text \<open>
  Claim C1. When \<open>find_shortest_path\<close> returns a path on a built graph, the path
  starts at a start candidate, ends at an end candidate, is a walk of the graph, and has
  no more edges than any walk of the graph from a start candidate to an end candidate.
\<close>

theorem shortest_path_minimal:
  assumes "build_graph df rnd = Inr g"
    and "find_shortest_path g s e = Some (Inr (Some path))"
  shows "path \<noteq> [] \<and>
         hd path \<in> set (candidates g s) \<and>
         last path \<in> set (candidates g e) \<and>
         walk g path \<and>
         (\<forall>p. walk g p \<and> hd p \<in> set (candidates g s) \<and> last p \<in> set (candidates g e)
              \<longrightarrow> length path - 1 \<le> length p - 1)"
proof -
  have ok: "store_ok g" using assms(1) by (rule build_graph_store_ok)
  from find_shortest_path_cases[OF ok, of s e] assms(2)
  have "path \<noteq> []" "hd path \<in> set (candidates g s)" "last path \<in> set (candidates g e)"
    "walk g path"
    "\<forall>p. walk g p \<and> hd p \<in> set (candidates g s) \<and> last p \<in> set (candidates g e)
         \<longrightarrow> length path \<le> length p"
    by auto
  then show ?thesis by (auto intro: diff_le_mono)
qed

lemma build_metro_two_lines:
  "build_graph metro_two_lines (\<lambda>i. i) = Inr metro_two_lines_graph"
  by code_simp

theorem shortest_path_minimal_witness:
  "build_graph metro_two_lines (\<lambda>i. i) = Inr metro_two_lines_graph \<and>
   find_shortest_path metro_two_lines_graph ''A'' ''D'' =
     Some (Inr (Some [''A (L1)'', ''B (L1)'', ''B (L2)'', ''D (L2)''])) \<and>
   walk metro_two_lines_graph [''A (L1)'', ''B (L1)'', ''B (L2)'', ''D (L2)''] \<and>
   hd [''A (L1)'', ''B (L1)'', ''B (L2)'', ''D (L2)''] \<in> set (candidates metro_two_lines_graph ''A'') \<and>
   last [''A (L1)'', ''B (L1)'', ''B (L2)'', ''D (L2)''] \<in> set (candidates metro_two_lines_graph ''D'')"
proof -
  have f: "find_shortest_path metro_two_lines_graph ''A'' ''D'' =
     Some (Inr (Some [''A (L1)'', ''B (L1)'', ''B (L2)'', ''D (L2)'']))"
    by code_simp
  from shortest_path_minimal[OF build_metro_two_lines f] build_metro_two_lines f
  show ?thesis by - (elim conjE, intro conjI, assumption+)
qed

lemma relax_simp:
  "relax c d (n, t) (q, D, P) =
     (case D n of
        None \<Rightarrow> Inl KeyError
      | Some x \<Rightarrow>
          if less_cost (d + t) x
          then Inr ((d + t, n) # q, D(n \<mapsto> Finite (d + t)), P(n \<mapsto> c))
          else Inr (q, D, P))"
  by (simp add: relax_def heappush_def Let_def split: option.splits)

lemma not_less_cost: "\<not> less_cost n x \<longleftrightarrow> (\<exists>m. x = Finite m \<and> m \<le> n)"
  by (cases x) auto

lemma relaxed_step:
  assumes r: "relaxed c d (q0, D0, P0) E (q, D, P)" and n: "n \<in> dom D0"
  shows "\<exists>s'. relax c d (n, t) (q, D, P) = Inr s' \<and>
              relaxed c d (q0, D0, P0) (insert (n, t) E) s'"
proof -
  from r have r1: "dom D = dom D0"
    and r2: "\<forall>v. (D v = D0 v \<and> P v = P0 v) \<or>
                (\<exists>t c0. (v, t) \<in> E \<and> D v = Some (Finite (d + t)) \<and> P v = Some c \<and>
                        D0 v = Some c0 \<and> less_cost (d + t) c0)"
    and r3: "\<forall>e \<in> E. \<exists>x. D (fst e) = Some (Finite x) \<and> x \<le> d + snd e"
    and r4: "set q0 \<subseteq> set q"
    and r4': "\<forall>i \<in> set q - set q0. D (snd i) \<noteq> D0 (snd i) \<and> (\<exists>t. (snd i, t) \<in> E \<and> fst i = d + t)"
    and r5: "\<forall>v. D v \<noteq> D0 v \<longrightarrow> (\<exists>x. D v = Some (Finite x) \<and> (x, v) \<in> set q)"
    and r6: "\<forall>i \<in> set q. \<exists>y. D (snd i) = Some (Finite y) \<and> y \<le> fst i"
    and r7: "distinct q"
    and r8: "\<forall>v x0. D0 v = Some (Finite x0) \<longrightarrow> (\<exists>x. D v = Some (Finite x) \<and> x \<le> x0)"
    unfolding relaxed_def by auto
  from n r1 obtain cst where cst: "D n = Some cst" by auto
  from n obtain c0 where c0: "D0 n = Some c0" by auto
  show ?thesis
  proof (cases "less_cost (d + t) cst")
    case False
    then obtain m where m: "cst = Finite m" "m \<le> d + t" by (auto simp: not_less_cost)
    have res: "relax c d (n, t) (q, D, P) = Inr (q, D, P)"
      using cst False by (simp add: relax_simp)
    have "relaxed c d (q0, D0, P0) (insert (n, t) E) (q, D, P)"
      unfolding relaxed_def prod.case
    proof (intro conjI)
      show "\<forall>v. (D v = D0 v \<and> P v = P0 v) \<or>
                (\<exists>t' c0. (v, t') \<in> insert (n, t) E \<and> D v = Some (Finite (d + t')) \<and> P v = Some c \<and>
                        D0 v = Some c0 \<and> less_cost (d + t') c0)"
        using r2 by blast
      show "\<forall>e \<in> insert (n, t) E. \<exists>x. D (fst e) = Some (Finite x) \<and> x \<le> d + snd e"
        using r3 cst m by auto
      show "\<forall>i \<in> set q - set q0. D (snd i) \<noteq> D0 (snd i) \<and>
              (\<exists>t'. (snd i, t') \<in> insert (n, t) E \<and> fst i = d + t')"
        using r4' by blast
    qed (use r1 r4 r5 r6 r7 r8 in auto)
    with res show ?thesis by blast
  next
    case True
    let ?D = "D(n \<mapsto> Finite (d + t))" and ?P = "P(n \<mapsto> c)" and ?q = "(d + t, n) # q"
    have res: "relax c d (n, t) (q, D, P) = Inr (?q, ?D, ?P)"
      using cst True by (simp add: relax_simp)
    \<comment> \<open>the new distance is below the one the pass started with\<close>
    have lt0: "less_cost (d + t) c0"
    proof (cases c0)
      case (Finite x0)
      with r8 c0 obtain x where "D n = Some (Finite x)" "x \<le> x0" by blast
      with cst True Finite show ?thesis by auto
    next
      case Infinite
      then show ?thesis by simp
    qed
    then have ne0: "Some (Finite (d + t)) \<noteq> D0 n" using c0 by auto
    \<comment> \<open>and below every entry of the node in the heap\<close>
    have below: "d + t < fst i" if "i \<in> set q" "snd i = n" for i
    proof -
      from r6 that obtain y where "D n = Some (Finite y)" "y \<le> fst i" by blast
      with cst True show ?thesis by auto
    qed
    have "relaxed c d (q0, D0, P0) (insert (n, t) E) (?q, ?D, ?P)"
      unfolding relaxed_def prod.case
    proof (intro conjI)
      show "dom ?D = dom D0" using r1 n by auto
      show "\<forall>v. (?D v = D0 v \<and> ?P v = P0 v) \<or>
                (\<exists>t' c0. (v, t') \<in> insert (n, t) E \<and> ?D v = Some (Finite (d + t')) \<and>
                        ?P v = Some c \<and> D0 v = Some c0 \<and> less_cost (d + t') c0)"
      proof
        fix v
        show "(?D v = D0 v \<and> ?P v = P0 v) \<or>
                (\<exists>t' c0. (v, t') \<in> insert (n, t) E \<and> ?D v = Some (Finite (d + t')) \<and>
                        ?P v = Some c \<and> D0 v = Some c0 \<and> less_cost (d + t') c0)"
        proof (cases "v = n")
          case True
          then show ?thesis using c0 lt0 by auto
        next
          case False
          with r2[rule_format, of v] show ?thesis by auto
        qed
      qed
      show "\<forall>e \<in> insert (n, t) E. \<exists>x. ?D (fst e) = Some (Finite x) \<and> x \<le> d + snd e"
      proof
        fix e assume e: "e \<in> insert (n, t) E"
        show "\<exists>x. ?D (fst e) = Some (Finite x) \<and> x \<le> d + snd e"
        proof (cases "e = (n, t)")
          case True
          then show ?thesis by simp
        next
          case False
          with e have eE: "e \<in> E" by simp
          with r3 obtain x where x: "D (fst e) = Some (Finite x)" "x \<le> d + snd e" by blast
          show ?thesis
          proof (cases "fst e = n")
            case True
            with x cst \<open>less_cost (d + t) cst\<close> show ?thesis by auto
          next
            case False
            with x show ?thesis by simp
          qed
        qed
      qed
      show "set q0 \<subseteq> set ?q" using r4 by auto
      show "\<forall>i \<in> set ?q - set q0. ?D (snd i) \<noteq> D0 (snd i) \<and>
              (\<exists>t'. (snd i, t') \<in> insert (n, t) E \<and> fst i = d + t')"
      proof
        fix i assume i: "i \<in> set ?q - set q0"
        show "?D (snd i) \<noteq> D0 (snd i) \<and> (\<exists>t'. (snd i, t') \<in> insert (n, t) E \<and> fst i = d + t')"
        proof (cases "i = (d + t, n)")
          case True
          then show ?thesis using ne0 by auto
        next
          case False
          with i have "i \<in> set q - set q0" by auto
          with r4' have o: "D (snd i) \<noteq> D0 (snd i)" "\<exists>t. (snd i, t) \<in> E \<and> fst i = d + t"
            by blast+
          show ?thesis
          proof (cases "snd i = n")
            case True
            then show ?thesis using ne0 o(2) by auto
          next
            case False
            then show ?thesis using o by auto
          qed
        qed
      qed
      show "\<forall>v. ?D v \<noteq> D0 v \<longrightarrow> (\<exists>x. ?D v = Some (Finite x) \<and> (x, v) \<in> set ?q)"
        using r5 by auto
      show "\<forall>i \<in> set ?q. \<exists>y. ?D (snd i) = Some (Finite y) \<and> y \<le> fst i"
      proof
        fix i assume i: "i \<in> set ?q"
        show "\<exists>y. ?D (snd i) = Some (Finite y) \<and> y \<le> fst i"
        proof (cases "snd i = n")
          case True
          show ?thesis
          proof (cases "i = (d + t, n)")
            case True
            then show ?thesis by simp
          next
            case False
            with i have "i \<in> set q" by simp
            from below[OF this \<open>snd i = n\<close>] \<open>snd i = n\<close> show ?thesis by simp
          qed
        next
          case False
          with i have "i \<in> set q" by auto
          with r6 False show ?thesis by auto
        qed
      qed
      show "distinct ?q" using r7 below[of "(d + t, n)"] by auto
      show "\<forall>v x0. D0 v = Some (Finite x0) \<longrightarrow> (\<exists>x. ?D v = Some (Finite x) \<and> x \<le> x0)"
      proof (intro allI impI)
        fix v x0 assume v: "D0 v = Some (Finite x0)"
        show "\<exists>x. ?D v = Some (Finite x) \<and> x \<le> x0"
        proof (cases "v = n")
          case True
          with v c0 lt0 show ?thesis by auto
        next
          case False
          with r8 v show ?thesis by auto
        qed
      qed
    qed
    with res show ?thesis by blast
  qed
qed

lemma relaxed_loop:
  assumes "relaxed c d (q0, D0, P0) E s" and "fst ` set nbrs \<subseteq> dom D0"
  shows "\<exists>s'. for_each (relax c d) nbrs s = Inr s' \<and>
              relaxed c d (q0, D0, P0) (E \<union> set nbrs) s'"
  using assms
proof (induction nbrs arbitrary: E s)
  case Nil
  then show ?case by simp
next
  case (Cons e nbrs)
  obtain n t where e: "e = (n, t)" by (cases e) auto
  obtain q D P where s: "s = (q, D, P)" by (cases s) auto
  from Cons.prems(2) e have n: "n \<in> dom D0" by auto
  from relaxed_step[OF Cons.prems(1)[unfolded s] n, of t] obtain s1 where
    s1: "relax c d (n, t) (q, D, P) = Inr s1" "relaxed c d (q0, D0, P0) (insert (n, t) E) s1"
    by blast
  from Cons.IH[OF s1(2)] Cons.prems(2) obtain s' where
    "for_each (relax c d) nbrs s1 = Inr s'"
    "relaxed c d (q0, D0, P0) (insert (n, t) E \<union> set nbrs) s'" by auto
  then show ?case using s1(1) e s by auto
qed

lemma relaxed_initial:
  assumes "\<forall>i \<in> set q. \<exists>y. D (snd i) = Some (Finite y) \<and> y \<le> fst i" and "distinct q"
  shows "relaxed c d (q, D, P) {} (q, D, P)"
  using assms unfolding relaxed_def by auto

lemma relax_noop:
  assumes "\<forall>e \<in> set nbrs. \<exists>x. D (fst e) = Some (Finite x) \<and> x \<le> d + snd e"
  shows "for_each (relax c d) nbrs (q, D, P) = Inr (q, D, P)"
  using assms
proof (induction nbrs)
  case Nil
  then show ?case by simp
next
  case (Cons e nbrs)
  obtain n t where e: "e = (n, t)" by (cases e) auto
  from Cons.prems e obtain x where "D n = Some (Finite x)" "x \<le> d + t" by auto
  then have "relax c d (n, t) (q, D, P) = Inr (q, D, P)" by (simp add: relax_simp)
  with Cons e show ?case by simp
qed

lemma store_ok_adjacent:
  assumes "store_ok g" and "map_of (edges g) c = Some nbrs"
  shows "adjacent g c = nbrs" and "fst ` set nbrs \<subseteq> fst ` set (edges g)"
    and "\<forall>e \<in> set nbrs. 0 < snd e"
proof -
  show "adjacent g c = nbrs" using assms(2) by (rule adjacent_Some)
  from assms(2) have m: "(c, nbrs) \<in> set (edges g)" by (rule map_of_SomeD)
  then have "fst ` set nbrs \<subseteq> named g" by (force simp: named_def)
  with assms(1) show "fst ` set nbrs \<subseteq> fst ` set (edges g)" by (auto simp: store_ok_def)
  from assms(1) m show "\<forall>e \<in> set nbrs. 0 < snd e" by (force simp: store_ok_def)
qed

lemma Min_pair_least:
  fixes q :: "(int \<times> string) list"
  assumes "q \<noteq> []" and "Min (set q) = (d, c)"
  shows "(d, c) \<in> set q" and "\<forall>i \<in> set q. d \<le> fst i"
proof -
  have "Min (set q) \<in> set q" using assms(1) by (intro Min_in) auto
  then show "(d, c) \<in> set q" using assms(2) by simp
  show "\<forall>i \<in> set q. d \<le> fst i"
  proof
    fix i assume "i \<in> set q"
    then have "Min (set q) \<le> i" by simp
    then show "d \<le> fst i" unfolding assms(2) by (cases i) (auto simp: less_eq_prod_def)
  qed
qed

lemma dj_step_stale:
  assumes ok: "store_ok g" and inv: "dj_inv g S T (q, D, P)"
    and ne: "q \<noteq> []" and pop: "Min (set q) = (d, c)"
    and m: "map_of (edges g) c = Some nbrs"
    and y: "D c = Some (Finite y)" and stale: "(y, c) \<notin> set q"
  shows "for_each (relax c d) nbrs (remove1 (d, c) q, D, P) = Inr (remove1 (d, c) q, D, P) \<and>
         dj_inv g S T (remove1 (d, c) q, D, P) \<and>
         (dj_measure g (remove1 (d, c) q, D, P), dj_measure g (q, D, P))
           \<in> less_than <*lex*> less_than"
proof -
  let ?r = "remove1 (d, c) q"
  from inv have j1: "dom D = fst ` set (edges g)"
    and j2: "\<forall>i \<in> set q. \<exists>y. D (snd i) = Some (Finite y) \<and> y \<le> fst i"
    and j3: "\<forall>v x. D v = Some (Finite x) \<longrightarrow> 0 \<le> x"
    and j4: "\<forall>v \<in> S. D v = Some (Finite 0) \<and> P v = None"
    and j5: "\<forall>v x. D v = Some (Finite x) \<and> v \<notin> S \<longrightarrow>
           (\<exists>u y w. P v = Some u \<and> D u = Some (Finite y) \<and> (y, u) \<notin> set q \<and>
                    (v, w) \<in> set (adjacent g u) \<and> x = y + w)"
    and j6: "\<forall>u y. D u = Some (Finite y) \<and> (y, u) \<notin> set q \<longrightarrow>
           (\<forall>e \<in> set (adjacent g u). \<exists>x. D (fst e) = Some (Finite x) \<and> x \<le> y + snd e)"
    and j7: "\<forall>u y. D u = Some (Finite y) \<and> (y, u) \<notin> set q \<longrightarrow> (\<forall>i \<in> set q. y \<le> fst i)"
    and j8: "\<forall>u y. D u = Some (Finite y) \<and> (y, u) \<notin> set q \<longrightarrow> u \<notin> T"
    and j9: "distinct q"
    unfolding dj_inv_def by auto
  note mn = Min_pair_least[OF ne pop]
  have adj: "adjacent g c = nbrs" using store_ok_adjacent(1)[OF ok m] .
  have sr: "set ?r = set q - {(d, c)}" using j9 by simp
  have "\<forall>i \<in> set q. y \<le> fst i" using j7[rule_format, of c y] y stale by simp
  then have yd: "y \<le> d" using mn(1) by fastforce
  \<comment> \<open>an entry that left the heap was not the recorded distance of its node\<close>
  have same: "(y', u) \<notin> set ?r \<longleftrightarrow> (y', u) \<notin> set q" if "D u = Some (Finite y')" for u y'
  proof -
    have "(y', u) \<noteq> (d, c)"
    proof
      assume "(y', u) = (d, c)"
      with that y have "y = d" by simp
      with stale mn(1) show False by simp
    qed
    then show ?thesis unfolding sr by simp
  qed
  have "\<forall>e \<in> set nbrs. \<exists>x. D (fst e) = Some (Finite x) \<and> x \<le> d + snd e"
  proof
    fix e assume "e \<in> set nbrs"
    with j6 y stale adj obtain x where "D (fst e) = Some (Finite x)" "x \<le> y + snd e" by blast
    with yd show "\<exists>x. D (fst e) = Some (Finite x) \<and> x \<le> d + snd e" by auto
  qed
  then have res: "for_each (relax c d) nbrs (?r, D, P) = Inr (?r, D, P)" by (rule relax_noop)
  have inv': "dj_inv g S T (?r, D, P)"
    unfolding dj_inv_def prod.case
  proof (intro conjI)
    show "\<forall>i \<in> set ?r. \<exists>y. D (snd i) = Some (Finite y) \<and> y \<le> fst i" using j2 sr by auto
    show "\<forall>v x. D v = Some (Finite x) \<and> v \<notin> S \<longrightarrow>
           (\<exists>u y w. P v = Some u \<and> D u = Some (Finite y) \<and> (y, u) \<notin> set ?r \<and>
                    (v, w) \<in> set (adjacent g u) \<and> x = y + w)"
      using j5 sr by blast
    show "\<forall>u y. D u = Some (Finite y) \<and> (y, u) \<notin> set ?r \<longrightarrow>
           (\<forall>e \<in> set (adjacent g u). \<exists>x. D (fst e) = Some (Finite x) \<and> x \<le> y + snd e)"
      using j6 same by blast
    show "\<forall>u y. D u = Some (Finite y) \<and> (y, u) \<notin> set ?r \<longrightarrow> (\<forall>i \<in> set ?r. y \<le> fst i)"
    proof (intro allI impI ballI)
      fix u y' i assume "D u = Some (Finite y') \<and> (y', u) \<notin> set ?r" and i: "i \<in> set ?r"
      then have "D u = Some (Finite y')" "(y', u) \<notin> set q" using same by auto
      moreover have "i \<in> set q" using i sr by auto
      ultimately show "y' \<le> fst i" using j7 by blast
    qed
    show "\<forall>u y. D u = Some (Finite y) \<and> (y, u) \<notin> set ?r \<longrightarrow> u \<notin> T"
      using j8 same by blast
    show "distinct ?r" using j9 by simp
  qed (use j1 j3 j4 in auto)
  have "settled (?r, D, P) v \<longleftrightarrow> settled (q, D, P) v" for v
    unfolding settled_def prod.case using same by blast
  moreover have "length ?r < length q" using mn(1) by (simp add: length_remove1) (cases q, auto)
  ultimately have "(dj_measure g (?r, D, P), dj_measure g (q, D, P)) \<in> less_than <*lex*> less_than"
    by (simp add: dj_measure_def)
  with res inv' show ?thesis by simp
qed

lemma dj_step_fresh:
  assumes ok: "store_ok g" and inv: "dj_inv g S T (q, D, P)"
    and ne: "q \<noteq> []" and pop: "Min (set q) = (d, c)" and cT: "c \<notin> T"
    and m: "map_of (edges g) c = Some nbrs"
    and y: "D c = Some (Finite y)" and fresh: "(y, c) \<in> set q"
  shows "\<exists>s'. for_each (relax c d) nbrs (remove1 (d, c) q, D, P) = Inr s' \<and>
              dj_inv g S T s' \<and>
              (dj_measure g s', dj_measure g (q, D, P)) \<in> less_than <*lex*> less_than"
proof -
  let ?r = "remove1 (d, c) q"
  from inv have j1: "dom D = fst ` set (edges g)"
    and j2: "\<forall>i \<in> set q. \<exists>y. D (snd i) = Some (Finite y) \<and> y \<le> fst i"
    and j3: "\<forall>v x. D v = Some (Finite x) \<longrightarrow> 0 \<le> x"
    and j4: "\<forall>v \<in> S. D v = Some (Finite 0) \<and> P v = None"
    and j5: "\<forall>v x. D v = Some (Finite x) \<and> v \<notin> S \<longrightarrow>
           (\<exists>u y w. P v = Some u \<and> D u = Some (Finite y) \<and> (y, u) \<notin> set q \<and>
                    (v, w) \<in> set (adjacent g u) \<and> x = y + w)"
    and j6: "\<forall>u y. D u = Some (Finite y) \<and> (y, u) \<notin> set q \<longrightarrow>
           (\<forall>e \<in> set (adjacent g u). \<exists>x. D (fst e) = Some (Finite x) \<and> x \<le> y + snd e)"
    and j7: "\<forall>u y. D u = Some (Finite y) \<and> (y, u) \<notin> set q \<longrightarrow> (\<forall>i \<in> set q. y \<le> fst i)"
    and j8: "\<forall>u y. D u = Some (Finite y) \<and> (y, u) \<notin> set q \<longrightarrow> u \<notin> T"
    and j9: "distinct q"
    unfolding dj_inv_def by auto
  note mn = Min_pair_least[OF ne pop]
  note sa = store_ok_adjacent[OF ok m]
  have sr: "set ?r = set q - {(d, c)}" using j9 by simp
  \<comment> \<open>the entry popped is the recorded distance of its node\<close>
  have "d \<le> y" using mn(2) fresh by fastforce
  moreover have "y \<le> d" using j2[rule_format, OF mn(1)] y by simp
  ultimately have yd: "y = d" by simp
  have Dc: "D c = Some (Finite d)" using y yd by simp
  have d0: "0 \<le> d" using j3 Dc by blast
  \<comment> \<open>the pass over the edges\<close>
  have r0: "relaxed c d (?r, D, P) {} (?r, D, P)"
  proof (rule relaxed_initial)
    show "\<forall>i \<in> set ?r. \<exists>y. D (snd i) = Some (Finite y) \<and> y \<le> fst i" using j2 sr by simp
    show "distinct ?r" using j9 by simp
  qed
  have "fst ` set nbrs \<subseteq> dom D" using sa(2) j1 by simp
  from relaxed_loop[OF r0 this] obtain s' where
    res: "for_each (relax c d) nbrs (?r, D, P) = Inr s'"
    and rel: "relaxed c d (?r, D, P) (set nbrs) s'" by auto
  obtain q' D' P' where s': "s' = (q', D', P')" by (cases s') auto
  from rel[unfolded s'] have r1: "dom D' = dom D"
    and r2: "\<forall>v. (D' v = D v \<and> P' v = P v) \<or>
                (\<exists>t c0. (v, t) \<in> set nbrs \<and> D' v = Some (Finite (d + t)) \<and> P' v = Some c \<and>
                        D v = Some c0 \<and> less_cost (d + t) c0)"
    and r3: "\<forall>e \<in> set nbrs. \<exists>x. D' (fst e) = Some (Finite x) \<and> x \<le> d + snd e"
    and r4: "set ?r \<subseteq> set q'"
    and r4': "\<forall>i \<in> set q' - set ?r. D' (snd i) \<noteq> D (snd i) \<and>
                (\<exists>t. (snd i, t) \<in> set nbrs \<and> fst i = d + t)"
    and r5: "\<forall>v. D' v \<noteq> D v \<longrightarrow> (\<exists>x. D' v = Some (Finite x) \<and> (x, v) \<in> set q')"
    and r6: "\<forall>i \<in> set q'. \<exists>y. D' (snd i) = Some (Finite y) \<and> y \<le> fst i"
    and r7: "distinct q'"
    and r8: "\<forall>v x0. D v = Some (Finite x0) \<longrightarrow> (\<exists>x. D' v = Some (Finite x) \<and> x \<le> x0)"
    unfolding relaxed_def by auto
  have pos: "0 < t" if "(v, t) \<in> set nbrs" for v t using sa(3) that by fastforce
  \<comment> \<open>a node at distance at most \<open>d\<close> is left as it was\<close>
  have k1: "D' u = D u \<and> P' u = P u" if "D u = Some (Finite y')" "y' \<le> d" for u y'
  proof (rule ccontr)
    assume "\<not> (D' u = D u \<and> P' u = P u)"
    with r2[rule_format, of u] obtain t c0 where
      "(u, t) \<in> set nbrs" "D u = Some c0" "less_cost (d + t) c0" by blast
    with that pos[of u t] show False by auto
  qed
  have k2: "(y', u) \<in> set q' \<longleftrightarrow> (y', u) \<in> set ?r" if "D u = Some (Finite y')" "y' \<le> d" for u y'
  proof
    assume a: "(y', u) \<in> set q'"
    show "(y', u) \<in> set ?r"
    proof (rule ccontr)
      assume "(y', u) \<notin> set ?r"
      with a r4'[rule_format, of "(y', u)"] have "D' u \<noteq> D u" by simp
      with k1[OF that] show False by simp
    qed
  next
    assume "(y', u) \<in> set ?r" with r4 show "(y', u) \<in> set q'" by auto
  qed
  \<comment> \<open>a node settled afterwards was settled before, or is the node popped\<close>
  have k3: "D u = Some (Finite y') \<and> ((y', u) \<notin> set q \<or> (y', u) = (d, c))"
    if "D' u = Some (Finite y')" "(y', u) \<notin> set q'" for u y'
  proof -
    have "D' u = D u" using r5[rule_format, of u] that by auto
    moreover have "(y', u) \<notin> set ?r" using that(2) r4 by auto
    ultimately show ?thesis using that(1) sr by auto
  qed
  have dc': "D' c = Some (Finite d)" "(d, c) \<notin> set q'"
    using k1[OF Dc] k2[OF Dc] Dc sr by simp_all
  \<comment> \<open>a node settled before stays settled\<close>
  have k4: "D' u = Some (Finite y') \<and> (y', u) \<notin> set q' \<and> y' \<le> d"
    if "D u = Some (Finite y')" "(y', u) \<notin> set q" for u y'
  proof -
    have le: "y' \<le> d" using j7[rule_format, of u y'] that mn(1) by fastforce
    from k1[OF that(1) le] k2[OF that(1) le] that sr show ?thesis using le by simp
  qed
  have inv': "dj_inv g S T (q', D', P')"
    unfolding dj_inv_def prod.case
  proof (intro conjI)
    show "dom D' = fst ` set (edges g)" using r1 j1 by simp
    show "\<forall>i \<in> set q'. \<exists>y. D' (snd i) = Some (Finite y) \<and> y \<le> fst i" by (rule r6)
    show "\<forall>v x. D' v = Some (Finite x) \<longrightarrow> 0 \<le> x"
    proof (intro allI impI)
      fix v x assume v: "D' v = Some (Finite x)"
      from r2[rule_format, of v] show "0 \<le> x"
      proof
        assume "D' v = D v \<and> P' v = P v"
        with v j3 show ?thesis by auto
      next
        assume "\<exists>t c0. (v, t) \<in> set nbrs \<and> D' v = Some (Finite (d + t)) \<and> P' v = Some c \<and>
                        D v = Some c0 \<and> less_cost (d + t) c0"
        then obtain t where "(v, t) \<in> set nbrs" "D' v = Some (Finite (d + t))" by blast
        with v pos[of v t] d0 show ?thesis by simp
      qed
    qed
    show "\<forall>v \<in> S. D' v = Some (Finite 0) \<and> P' v = None"
    proof
      fix v assume "v \<in> S"
      with j4 have "D v = Some (Finite 0)" "P v = None" by auto
      with k1[OF this(1) d0] show "D' v = Some (Finite 0) \<and> P' v = None" by simp
    qed
    show "\<forall>v x. D' v = Some (Finite x) \<and> v \<notin> S \<longrightarrow>
           (\<exists>u y w. P' v = Some u \<and> D' u = Some (Finite y) \<and> (y, u) \<notin> set q' \<and>
                    (v, w) \<in> set (adjacent g u) \<and> x = y + w)"
    proof (intro allI impI)
      fix v x assume v: "D' v = Some (Finite x) \<and> v \<notin> S"
      from r2[rule_format, of v]
      show "\<exists>u y w. P' v = Some u \<and> D' u = Some (Finite y) \<and> (y, u) \<notin> set q' \<and>
                    (v, w) \<in> set (adjacent g u) \<and> x = y + w"
      proof
        assume same: "D' v = D v \<and> P' v = P v"
        with v have "D v = Some (Finite x) \<and> v \<notin> S" by simp
        from j5[rule_format, OF this] obtain u y' w where
          u: "P v = Some u" "D u = Some (Finite y')" "(y', u) \<notin> set q"
            "(v, w) \<in> set (adjacent g u)" "x = y' + w" by blast
        from k4[OF u(2,3)] u same show ?thesis by auto
      next
        assume "\<exists>t c0. (v, t) \<in> set nbrs \<and> D' v = Some (Finite (d + t)) \<and> P' v = Some c \<and>
                        D v = Some c0 \<and> less_cost (d + t) c0"
        then obtain t where t: "(v, t) \<in> set nbrs" "D' v = Some (Finite (d + t))" "P' v = Some c"
          by blast
        with v have "x = d + t" by simp
        with t dc' sa(1) show ?thesis by auto
      qed
    qed
    show "\<forall>u y. D' u = Some (Finite y) \<and> (y, u) \<notin> set q' \<longrightarrow>
           (\<forall>e \<in> set (adjacent g u). \<exists>x. D' (fst e) = Some (Finite x) \<and> x \<le> y + snd e)"
    proof (intro allI impI ballI)
      fix u y' e assume u: "D' u = Some (Finite y') \<and> (y', u) \<notin> set q'"
        and e: "e \<in> set (adjacent g u)"
      from k3 u have o: "D u = Some (Finite y')" "(y', u) \<notin> set q \<or> (y', u) = (d, c)" by auto
      from o(2) show "\<exists>x. D' (fst e) = Some (Finite x) \<and> x \<le> y' + snd e"
      proof
        assume "(y', u) \<notin> set q"
        with j6[rule_format, of u y'] o(1) e obtain x where
          "D (fst e) = Some (Finite x)" "x \<le> y' + snd e" by blast
        with r8[rule_format, of "fst e" x] show ?thesis by fastforce
      next
        assume "(y', u) = (d, c)"
        with e sa(1) r3 show ?thesis by auto
      qed
    qed
    show "\<forall>u y. D' u = Some (Finite y) \<and> (y, u) \<notin> set q' \<longrightarrow> (\<forall>i \<in> set q'. y \<le> fst i)"
    proof (intro allI impI ballI)
      fix u y' i assume u: "D' u = Some (Finite y') \<and> (y', u) \<notin> set q'" and i: "i \<in> set q'"
      from k3 u have o: "D u = Some (Finite y')" "(y', u) \<notin> set q \<or> (y', u) = (d, c)" by auto
      have le: "y' \<le> d"
        using o(2)
      proof
        assume "(y', u) \<notin> set q" with k4[OF o(1)] show ?thesis by simp
      next
        assume "(y', u) = (d, c)" then show ?thesis by simp
      qed
      show "y' \<le> fst i"
      proof (cases "i \<in> set ?r")
        case True
        then have iq: "i \<in> set q" using sr by simp
        from o(2) show ?thesis
        proof
          assume "(y', u) \<notin> set q"
          with j7[rule_format, of u y'] o(1) iq show ?thesis by simp
        next
          assume "(y', u) = (d, c)"
          with mn(2) iq show ?thesis by simp
        qed
      next
        case False
        with i r4'[rule_format, of i] obtain t where "(snd i, t) \<in> set nbrs" "fst i = d + t"
          by auto
        with pos[of "snd i" t] le show ?thesis by simp
      qed
    qed
    show "\<forall>u y. D' u = Some (Finite y) \<and> (y, u) \<notin> set q' \<longrightarrow> u \<notin> T"
    proof (intro allI impI)
      fix u y' assume u: "D' u = Some (Finite y') \<and> (y', u) \<notin> set q'"
      from k3 u have o: "D u = Some (Finite y')" "(y', u) \<notin> set q \<or> (y', u) = (d, c)" by auto
      from o(2) show "u \<notin> T"
      proof
        assume "(y', u) \<notin> set q" with j8[rule_format, of u y'] o(1) show ?thesis by simp
      next
        assume "(y', u) = (d, c)" with cT show ?thesis by simp
      qed
    qed
    show "distinct q'" by (rule r7)
  qed
  \<comment> \<open>one more node is settled\<close>
  let ?K = "fst ` set (edges g)"
  have "{v \<in> ?K. \<not> settled (q', D', P') v} \<subseteq> {v \<in> ?K. \<not> settled (q, D, P) v}"
    unfolding settled_def prod.case using k4 by blast
  moreover have "c \<in> {v \<in> ?K. \<not> settled (q, D, P) v}"
    using Dc mn(1) j1 by (auto simp: settled_def)
  moreover have "c \<notin> {v \<in> ?K. \<not> settled (q', D', P') v}"
    using dc' by (auto simp: settled_def)
  ultimately have "{v \<in> ?K. \<not> settled (q', D', P') v} \<subset> {v \<in> ?K. \<not> settled (q, D, P) v}"
    by blast
  then have "card {v \<in> ?K. \<not> settled (q', D', P') v} < card {v \<in> ?K. \<not> settled (q, D, P) v}"
    by (intro psubset_card_mono) auto
  then have "(dj_measure g (q', D', P'), dj_measure g (q, D, P)) \<in> less_than <*lex*> less_than"
    by (simp add: dj_measure_def)
  with res inv' s' show ?thesis by blast
qed

lemma costs_snoc:
  "p \<noteq> [] \<Longrightarrow>
   costs g (p @ [v]) x \<longleftrightarrow> (\<exists>e \<in> set (adjacent g (last p)). fst e = v \<and> costs g p (x - snd e))"
proof (induction p arbitrary: x)
  case Nil
  then show ?case by simp
next
  case (Cons u p)
  show ?case
  proof (cases p)
    case Nil
    then show ?thesis by auto
  next
    case (Cons w p')
    let ?l = "last (w # p')"
    have ih: "costs g ((w # p') @ [v]) z \<longleftrightarrow>
        (\<exists>e' \<in> set (adjacent g ?l). fst e' = v \<and> costs g (w # p') (z - snd e'))" for z
      using Cons.IH[of z] Cons by simp
    have c3: "costs g (u # w # p') z \<longleftrightarrow>
        (\<exists>e \<in> set (adjacent g u). fst e = w \<and> costs g (w # p') (z - snd e))" for z
      by simp
    have c3': "costs g ((u # w # p') @ [v]) z \<longleftrightarrow>
        (\<exists>e \<in> set (adjacent g u). fst e = w \<and> costs g ((w # p') @ [v]) (z - snd e))" for z
      by simp
    have "costs g ((u # w # p') @ [v]) x \<longleftrightarrow>
        (\<exists>e' \<in> set (adjacent g ?l). fst e' = v \<and> costs g (u # w # p') (x - snd e'))"
    proof
      assume "costs g ((u # w # p') @ [v]) x"
      with c3' obtain e where e: "e \<in> set (adjacent g u)" "fst e = w"
        "costs g ((w # p') @ [v]) (x - snd e)" by blast
      from e(3) ih obtain e' where e': "e' \<in> set (adjacent g ?l)" "fst e' = v"
        "costs g (w # p') (x - snd e - snd e')" by blast
      have "x - snd e - snd e' = x - snd e' - snd e" by simp
      with e' have "costs g (w # p') (x - snd e' - snd e)" by simp
      with e(1,2) c3 have "costs g (u # w # p') (x - snd e')" by blast
      with e'(1,2) show "\<exists>e' \<in> set (adjacent g ?l). fst e' = v \<and> costs g (u # w # p') (x - snd e')"
        by blast
    next
      assume "\<exists>e' \<in> set (adjacent g ?l). fst e' = v \<and> costs g (u # w # p') (x - snd e')"
      then obtain e' where e': "e' \<in> set (adjacent g ?l)" "fst e' = v"
        "costs g (u # w # p') (x - snd e')" by blast
      from e'(3) c3 obtain e where e: "e \<in> set (adjacent g u)" "fst e = w"
        "costs g (w # p') (x - snd e' - snd e)" by blast
      have "x - snd e' - snd e = x - snd e - snd e'" by simp
      with e(3) have "costs g (w # p') (x - snd e - snd e')" by simp
      with e'(1,2) ih have "costs g ((w # p') @ [v]) (x - snd e)" by blast
      with e(1,2) c3' show "costs g ((u # w # p') @ [v]) x" by blast
    qed
    then show ?thesis using Cons by simp
  qed
qed

lemma store_ok_weight:
  assumes "store_ok g" and "e \<in> set (adjacent g u)"
  shows "0 < snd e"
proof -
  from assms(2) obtain nbrs where m: "map_of (edges g) u = Some nbrs" "e \<in> set nbrs"
    by (cases "map_of (edges g) u") (auto simp: adjacent_def)
  from store_ok_adjacent(3)[OF assms(1) m(1)] m(2) show ?thesis by simp
qed

lemma dijkstra_loop_result:
  assumes ok: "store_ok g" and inv: "dj_inv g S (set end_ids) s"
  shows "(\<exists>c d q D P. dijkstra_loop g end_ids s = Some (Inr (Some (c, d, P))) \<and>
            c \<in> set end_ids \<and> q \<noteq> [] \<and> Min (set q) = (d, c) \<and>
            dj_inv g S (set end_ids) (q, D, P)) \<or>
         (\<exists>D P. dijkstra_loop g end_ids s = Some (Inr None) \<and>
            dj_inv g S (set end_ids) ([], D, P))"
proof -
  let ?R = "inv_image (less_than <*lex*> less_than) (dj_measure g)"
  have wfR: "wf ?R" by (intro wf_inv_image wf_lex_prod wf_less_than)
  from wfR inv show ?thesis
  proof (induction s rule: wf_induct_rule)
    case (less s)
    obtain q D P where s: "s = (q, D, P)" by (cases s) auto
    show ?case
    proof (cases "q = []")
      case True
      then have "dijkstra_loop g end_ids s = Some (Inr None)"
        by (simp add: s dijkstra_loop.simps[of g end_ids "([], D, P)"])
      with less.prems s True show ?thesis by blast
    next
      case ne: False
      obtain d c where pop: "Min (set q) = (d, c)" by (cases "Min (set q)") auto
      note mn = Min_pair_least[OF ne pop]
      show ?thesis
      proof (cases "c \<in> set end_ids")
        case True
        then have "dijkstra_loop g end_ids s = Some (Inr (Some (c, d, P)))"
          using ne pop by (simp add: s dijkstra_loop.simps[of g end_ids "(q, D, P)"] heappop_def)
        with less.prems s True ne pop show ?thesis by blast
      next
        case False
        from less.prems[unfolded s] have j1: "dom D = fst ` set (edges g)"
          and j2: "\<forall>i \<in> set q. \<exists>y. D (snd i) = Some (Finite y) \<and> y \<le> fst i"
          unfolding dj_inv_def by auto
        from j2[rule_format, OF mn(1)] obtain y where y: "D c = Some (Finite y)" by auto
        then have "c \<in> fst ` set (edges g)" using j1 by auto
        then obtain nbrs where m: "map_of (edges g) c = Some nbrs"
          by (metis domD dom_map_of_conv_image_fst)
        have "\<exists>s'. for_each (relax c d) nbrs (remove1 (d, c) q, D, P) = Inr s' \<and>
              dj_inv g S (set end_ids) s' \<and>
              (dj_measure g s', dj_measure g (q, D, P)) \<in> less_than <*lex*> less_than"
        proof (cases "(y, c) \<in> set q")
          case True
          from dj_step_fresh[OF ok less.prems[unfolded s] ne pop False m y True]
          show ?thesis .
        next
          case False
          from dj_step_stale[OF ok less.prems[unfolded s] ne pop m y False]
          show ?thesis by blast
        qed
        then obtain s' where s': "for_each (relax c d) nbrs (remove1 (d, c) q, D, P) = Inr s'"
          "dj_inv g S (set end_ids) s'" "(s', s) \<in> ?R" by (auto simp: s)
        have "dijkstra_loop g end_ids s = dijkstra_loop g end_ids s'"
          using ne pop False m s'(1)
          by (simp add: s dijkstra_loop.simps[of g end_ids "(q, D, P)"] heappop_def)
        with less.IH[OF s'(3) s'(2)] show ?thesis by simp
      qed
    qed
  qed
qed

lemma fold_seed_distance:
  "fold seed_distance ids (q, D, P) =
     (rev (map (\<lambda>sid. (0, sid)) ids) @ q,
      (\<lambda>x. if x \<in> set ids then Some (Finite 0) else D x), P)"
proof (induction ids arbitrary: q D)
  case Nil
  then show ?case by simp
next
  case (Cons a ids)
  have "seed_distance a (q, D, P) = ((0, a) # q, D(a \<mapsto> Finite 0), P)"
    by (simp add: seed_distance_def heappush_def)
  then show ?case by (auto simp: Cons fun_eq_iff)
qed

lemma map_of_infinite:
  "map_of (map (\<lambda>sid. (sid, Infinite)) ks) x = (if x \<in> set ks then Some Infinite else None)"
  by (induction ks) auto

lemma dj_inv_initial:
  assumes "store_ok g" and "distinct ids" and "set ids \<subseteq> fst ` set (edges g)"
  shows "dj_inv g (set ids) T
           (fold seed_distance ids
              ([], map_of (map (\<lambda>sid. (sid, Infinite)) (map fst (nodes g))), Map.empty))"
proof -
  let ?init = "\<lambda>x. if x \<in> set (map fst (nodes g)) then Some Infinite else None"
  let ?D = "\<lambda>x. if x \<in> set ids then Some (Finite 0) else ?init x"
  let ?q = "rev (map (\<lambda>sid. (0::int, sid)) ids) @ []"
  have d0: "map_of (map (\<lambda>sid. (sid, Infinite)) (map fst (nodes g))) = ?init"
    by (rule ext) (rule map_of_infinite)
  from assms(1) have k: "set (map fst (nodes g)) = fst ` set (edges g)"
    unfolding store_ok_def by (metis set_map)
  have fin: "?D v = Some (Finite x) \<longleftrightarrow> v \<in> set ids \<and> x = 0" for v x
    by auto
  have inq: "(0, v) \<in> set ?q" if "v \<in> set ids" for v using that by auto
  have "dj_inv g (set ids) T (?q, ?D, Map.empty)"
    unfolding dj_inv_def prod.case fin
  proof (intro conjI)
    show "dom ?D = fst ` set (edges g)"
      unfolding k using assms(3) by (auto simp: dom_def)
    show "distinct ?q" using assms(2) by (simp add: distinct_map inj_on_def)
  qed (use inq in auto)
  then show ?thesis unfolding fold_seed_distance d0 .
qed

lemma trace_previous_inv:
  assumes ok: "store_ok g" and inv: "dj_inv g S T (q, D, P)" and "D v = Some (Finite x)"
  shows "\<exists>p. trace_previous P (Some v) acc = Some (acc @ p) \<and> p \<noteq> [] \<and> hd p = v \<and>
             last p \<in> S \<and> costs g (rev p) x"
  using assms(3)
proof (induction "nat x" arbitrary: v x acc rule: less_induct)
  case less
  from inv have j1: "dom D = fst ` set (edges g)"
    and j3: "\<forall>v x. D v = Some (Finite x) \<longrightarrow> 0 \<le> x"
    and j4: "\<forall>v \<in> S. D v = Some (Finite 0) \<and> P v = None"
    and j5: "\<forall>v x. D v = Some (Finite x) \<and> v \<notin> S \<longrightarrow>
           (\<exists>u y w. P v = Some u \<and> D u = Some (Finite y) \<and> (y, u) \<notin> set q \<and>
                    (v, w) \<in> set (adjacent g u) \<and> x = y + w)"
    unfolding dj_inv_def by auto
  have "v \<in> fst ` set (edges g)" using less.prems j1 by auto
  moreover have "[] \<notin> fst ` set (edges g)" using ok by (simp add: store_ok_def)
  ultimately have ne: "v \<noteq> []" by metis
  show ?case
  proof (cases "v \<in> S")
    case True
    with j4 less.prems have "P v = None" "x = 0" by auto
    then have "trace_previous P (Some v) acc = Some (acc @ [v])"
      using ne by (simp add: trace_previous.simps[of P "Some v"] trace_previous.simps[of P None])
    with True \<open>x = 0\<close> show ?thesis by (intro exI[of _ "[v]"]) simp
  next
    case False
    with j5[rule_format, of v x] less.prems obtain u y w where
      u: "P v = Some u" "D u = Some (Finite y)" "(v, w) \<in> set (adjacent g u)" "x = y + w"
      by blast
    have w: "0 < w" using store_ok_weight[OF ok u(3)] by simp
    have y0: "0 \<le> y" using j3 u(2) by blast
    have "nat y < nat x" using w y0 u(4) by simp
    from less.hyps[OF this u(2), of "acc @ [v]"] obtain p where
      p: "trace_previous P (Some u) (acc @ [v]) = Some ((acc @ [v]) @ p)" "p \<noteq> []" "hd p = u"
        "last p \<in> S" "costs g (rev p) y" by blast
    have "trace_previous P (Some v) acc = Some (acc @ v # p)"
      using ne u(1) p(1) by (simp add: trace_previous.simps[of P "Some v"])
    moreover have "costs g (rev (v # p)) x"
    proof -
      have "last (rev p) = u" using p(2,3) by (simp add: last_rev)
      moreover have "costs g (rev p) (x - snd (v, w))" using p(5) u(4) by simp
      ultimately have "\<exists>e \<in> set (adjacent g (last (rev p))). fst e = v \<and> costs g (rev p) (x - snd e)"
        using u(3) by (intro bexI[of _ "(v, w)"]) simp_all
      then show ?thesis using p(2) by (simp add: costs_snoc)
    qed
    ultimately show ?thesis using p(2,4) by (intro exI[of _ "v # p"]) simp
  qed
qed

lemma dj_inv_reach:
  assumes ok: "store_ok g" and inv: "dj_inv g S T (q, D, P)"
    and "costs g p x" and "hd p \<in> S"
  shows "(\<exists>i \<in> set q. fst i \<le> x) \<or>
         (\<exists>y. D (last p) = Some (Finite y) \<and> (y, last p) \<notin> set q \<and> y \<le> x)"
  using assms(3,4)
proof (induction p arbitrary: x rule: rev_induct)
  case Nil
  then show ?case by simp
next
  case (snoc v p)
  from inv have j4: "\<forall>v \<in> S. D v = Some (Finite 0) \<and> P v = None"
    and j6: "\<forall>u y. D u = Some (Finite y) \<and> (y, u) \<notin> set q \<longrightarrow>
           (\<forall>e \<in> set (adjacent g u). \<exists>x. D (fst e) = Some (Finite x) \<and> x \<le> y + snd e)"
    unfolding dj_inv_def by auto
  show ?case
  proof (cases "p = []")
    case True
    with snoc.prems have v: "v \<in> S" "x = 0" by simp_all
    with j4 have "D v = Some (Finite 0)" by simp
    then show ?thesis using v(2) by (cases "(0, v) \<in> set q") fastforce+
  next
    case False
    with snoc.prems obtain e where e: "e \<in> set (adjacent g (last p))" "fst e = v"
      "costs g p (x - snd e)" and h: "hd p \<in> S" by (auto simp: costs_snoc)
    have w: "0 < snd e" using store_ok_weight[OF ok e(1)] .
    from snoc.IH[OF e(3) h] show ?thesis
    proof
      assume "\<exists>i \<in> set q. fst i \<le> x - snd e"
      then obtain i where "i \<in> set q" "fst i \<le> x - snd e" by blast
      with w have "i \<in> set q" "fst i \<le> x" by simp_all
      then show ?thesis by blast
    next
      assume "\<exists>y. D (last p) = Some (Finite y) \<and> (y, last p) \<notin> set q \<and> y \<le> x - snd e"
      then obtain y where y: "D (last p) = Some (Finite y)" "(y, last p) \<notin> set q"
        "y \<le> x - snd e" by blast
      from j6[rule_format, of "last p" y] y(1,2) e(1) obtain x' where
        x': "D (fst e) = Some (Finite x')" "x' \<le> y + snd e" by blast
      then have dv: "D v = Some (Finite x')" "x' \<le> x" using e(2) y(3) by simp_all
      show ?thesis
      proof (cases "(x', v) \<in> set q")
        case True
        with dv(2) show ?thesis by fastforce
      next
        case False
        with dv show ?thesis by simp
      qed
    qed
  qed
qed

lemma find_fastest_path_cases:
  assumes ok: "store_ok g"
  shows "(find_fastest_path g s e = Some (Inr (None, Infinite)) \<and>
            (\<forall>p x. costs g p x \<and> hd p \<in> set (candidates g s) \<longrightarrow>
                   last p \<notin> set (candidates g e))) \<or>
         (\<exists>path d. find_fastest_path g s e = Some (Inr (Some path, Finite d)) \<and> path \<noteq> [] \<and>
            hd path \<in> set (candidates g s) \<and> last path \<in> set (candidates g e) \<and>
            costs g path d \<and>
            (\<forall>p x. costs g p x \<and> hd p \<in> set (candidates g s) \<and> last p \<in> set (candidates g e)
                   \<longrightarrow> d \<le> x))"
proof -
  let ?S = "set (candidates g s)" and ?T = "set (candidates g e)"
  let ?s0 = "fold seed_distance (candidates g s)
               ([], map_of (map (\<lambda>sid. (sid, Infinite)) (map fst (nodes g))), Map.empty)"
  have "distinct (candidates g s)"
    using ok by (simp add: candidates_def store_ok_def)
  from dj_inv_initial[OF ok this candidates_keys[OF ok]]
  have i0: "dj_inv g ?S ?T ?s0" .
  from dijkstra_loop_result[OF ok i0] consider
    (hit) c d q D P where "dijkstra_loop g (candidates g e) ?s0 = Some (Inr (Some (c, d, P)))"
      "c \<in> ?T" "q \<noteq> []" "Min (set q) = (d, c)" "dj_inv g ?S ?T (q, D, P)"
    | (none) D P where "dijkstra_loop g (candidates g e) ?s0 = Some (Inr None)"
      "dj_inv g ?S ?T ([], D, P)" by blast
  then show ?thesis
  proof cases
    case hit
    note mn = Min_pair_least[OF hit(3,4)]
    from hit(5) have j2: "\<forall>i \<in> set q. \<exists>y. D (snd i) = Some (Finite y) \<and> y \<le> fst i"
      and j8: "\<forall>u y. D u = Some (Finite y) \<and> (y, u) \<notin> set q \<longrightarrow> u \<notin> ?T"
      unfolding dj_inv_def by auto
    from j2[rule_format, OF mn(1)] obtain y where y: "D c = Some (Finite y)" "y \<le> d" by auto
    with j8[rule_format, of c y] hit(2) have "(y, c) \<in> set q" by blast
    with mn(2) have "d \<le> y" by fastforce
    with y have Dc: "D c = Some (Finite d)" by simp
    from trace_previous_inv[OF ok hit(5) Dc, of "[]"] obtain p where
      p: "trace_previous P (Some c) [] = Some p" "p \<noteq> []" "hd p = c" "last p \<in> ?S"
        "costs g (rev p) d" by auto
    have r: "find_fastest_path g s e = Some (Inr (Some (rev p), Finite d))"
      using hit(1) p(1) by (simp add: find_fastest_path_def)
    have least: "d \<le> x" if "costs g p' x" "hd p' \<in> ?S" "last p' \<in> ?T" for p' x
    proof -
      from dj_inv_reach[OF ok hit(5) that(1,2)] show ?thesis
      proof
        assume "\<exists>i \<in> set q. fst i \<le> x"
        then obtain i where "i \<in> set q" "fst i \<le> x" by blast
        with mn(2) show ?thesis by fastforce
      next
        assume "\<exists>y. D (last p') = Some (Finite y) \<and> (y, last p') \<notin> set q \<and> y \<le> x"
        with j8 that(3) show ?thesis by blast
      qed
    qed
    have "hd (rev p) \<in> ?S" "last (rev p) \<in> ?T" "rev p \<noteq> []"
      using p(2,3,4) hit(2) by (simp_all add: hd_rev last_rev)
    with r p(5) least show ?thesis by blast
  next
    case none
    have r: "find_fastest_path g s e = Some (Inr (None, Infinite))"
      using none(1) by (simp add: find_fastest_path_def)
    from none(2) have j8: "\<forall>u y. D u = Some (Finite y) \<and> (y, u) \<notin> set [] \<longrightarrow> u \<notin> ?T"
      unfolding dj_inv_def by auto
    have "last p \<notin> ?T" if "costs g p x" "hd p \<in> ?S" for p x
      using dj_inv_reach[OF ok none(2) that] j8 by auto
    with r show ?thesis by blast
  qed
qed

lemma costs_walk: "costs g p x \<Longrightarrow> walk g p"
  by (induction g p x rule: costs.induct) (auto simp: edge_def)

lemma walk_costs: "walk g p \<Longrightarrow> \<exists>x. costs g p x"
proof (induction g p rule: walk.induct)
  case (1 g)
  then show ?case by simp
next
  case (2 g v)
  then show ?case by simp
next
  case (3 g u v p)
  then obtain e x where e: "e \<in> set (adjacent g u)" "fst e = v" and x: "costs g (v # p) x"
    by (auto simp: edge_def)
  have "costs g (v # p) ((x + snd e) - snd e)" using x by simp
  with e have "costs g (u # v # p) (x + snd e)" unfolding costs.simps by blast
  then show ?case by blast
qed

lemma costs_positive:
  assumes "store_ok g" and "costs g p x"
  shows "0 \<le> x \<and> (x = 0 \<longrightarrow> length p = 1)"
  using assms(2)
proof (induction p arbitrary: x)
  case Nil
  then show ?case by simp
next
  case (Cons u p)
  show ?case
  proof (cases p)
    case Nil
    with Cons.prems show ?thesis by simp
  next
    case (Cons v p')
    with Cons.prems obtain e where e: "e \<in> set (adjacent g u)" "costs g p (x - snd e)"
      by auto
    from Cons.IH[OF e(2)] have "0 \<le> x - snd e" by simp
    moreover have "0 < snd e" using store_ok_weight[OF assms(1) e(1)] .
    ultimately show ?thesis by simp
  qed
qed

text \<open>
  Claim C2. When \<open>find_fastest_path\<close> returns a path and a cost on a built graph (whose
  weights are all positive), the cost is finite and is the sum of the weights of edges
  along the path, which leads from a start candidate to an end candidate, and no walk
  of the graph from a start candidate to an end candidate has a smaller sum.
\<close>

theorem fastest_path_minimal:
  assumes "build_graph df rnd = Inr g"
    and "find_fastest_path g s e = Some (Inr (Some path, cost))"
  shows "(\<forall>u. \<forall>nw \<in> set (adjacent g u). 0 < snd nw) \<and>
         (\<exists>d. cost = Finite d \<and> costs g path d \<and>
              hd path \<in> set (candidates g s) \<and> last path \<in> set (candidates g e) \<and>
              (\<forall>p x. costs g p x \<and> hd p \<in> set (candidates g s) \<and>
                     last p \<in> set (candidates g e) \<longrightarrow> d \<le> x))"
proof -
  have ok: "store_ok g" using assms(1) by (rule build_graph_store_ok)
  have "\<forall>u. \<forall>nw \<in> set (adjacent g u). 0 < snd nw"
    using store_ok_weight[OF ok] by blast
  moreover from find_fastest_path_cases[OF ok, of s e] assms(2)
  have "\<exists>d. cost = Finite d \<and> costs g path d \<and>
              hd path \<in> set (candidates g s) \<and> last path \<in> set (candidates g e) \<and>
              (\<forall>p x. costs g p x \<and> hd p \<in> set (candidates g s) \<and>
                     last p \<in> set (candidates g e) \<longrightarrow> d \<le> x)"
    by auto
  ultimately show ?thesis by simp
qed

theorem fastest_path_minimal_witness:
  "build_graph metro_two_lines (\<lambda>i. i) = Inr metro_two_lines_graph \<and>
   find_fastest_path metro_two_lines_graph ''A'' ''D'' =
     Some (Inr (Some [''A (L1)'', ''B (L1)'', ''B (L2)'', ''D (L2)''], Finite 11)) \<and>
   costs metro_two_lines_graph [''A (L1)'', ''B (L1)'', ''B (L2)'', ''D (L2)''] 11"
proof -
  have f: "find_fastest_path metro_two_lines_graph ''A'' ''D'' =
     Some (Inr (Some [''A (L1)'', ''B (L1)'', ''B (L2)'', ''D (L2)''], Finite 11))"
    by code_simp
  from fastest_path_minimal[OF build_metro_two_lines f]
  have "\<exists>d. Finite 11 = Finite d \<and>
     costs metro_two_lines_graph [''A (L1)'', ''B (L1)'', ''B (L2)'', ''D (L2)''] d"
    by blast
  then have "costs metro_two_lines_graph [''A (L1)'', ''B (L1)'', ''B (L2)'', ''D (L2)''] 11"
    by auto
  with build_metro_two_lines f show ?thesis by simp
qed

text \<open>
  Claim C6. On a built graph, when a candidate set is empty or no walk leads from a start
  candidate to an end candidate, both finders return, without raising: the first
  \<^verbatim>\<open>None\<close>, the second \<^verbatim>\<open>None\<close> with the infinite cost.
\<close>

theorem no_route:
  assumes "build_graph df rnd = Inr g"
    and "candidates g s = [] \<or> candidates g e = [] \<or>
         \<not> (\<exists>p. walk g p \<and> hd p \<in> set (candidates g s) \<and> last p \<in> set (candidates g e))"
  shows "find_shortest_path g s e = Some (Inr None) \<and>
         find_fastest_path g s e = Some (Inr (None, Infinite))"
proof -
  have ok: "store_ok g" using assms(1) by (rule build_graph_store_ok)
  from assms(2)
  have no: "\<not> (\<exists>p. walk g p \<and> hd p \<in> set (candidates g s) \<and> last p \<in> set (candidates g e))"
    by auto
  from find_shortest_path_cases[OF ok, of s e] no
  have a: "find_shortest_path g s e = Some (Inr None)" by blast
  from find_fastest_path_cases[OF ok, of s e] no costs_walk[of g]
  have b: "find_fastest_path g s e = Some (Inr (None, Infinite))" by blast
  from a b show ?thesis by simp
qed

lemma build_metro_apart: "build_graph metro_apart (\<lambda>i. i) = Inr metro_apart_graph"
  by code_simp

theorem no_route_witness:
  "build_graph metro_apart (\<lambda>i. i) = Inr metro_apart_graph \<and>
   candidates metro_apart_graph ''Nowhere'' = [] \<and>
   find_shortest_path metro_apart_graph ''Nowhere'' ''A'' = Some (Inr None) \<and>
   find_fastest_path metro_apart_graph ''Nowhere'' ''A'' = Some (Inr (None, Infinite)) \<and>
   candidates metro_apart_graph ''A'' = [''A (L1)''] \<and>
   candidates metro_apart_graph ''Y'' = [''Y (L2)''] \<and>
   \<not> (\<exists>p. walk metro_apart_graph p \<and> hd p \<in> set (candidates metro_apart_graph ''A'') \<and>
           last p \<in> set (candidates metro_apart_graph ''Y'')) \<and>
   find_shortest_path metro_apart_graph ''A'' ''Y'' = Some (Inr None) \<and>
   find_fastest_path metro_apart_graph ''A'' ''Y'' = Some (Inr (None, Infinite))"
proof -
  have c0: "candidates metro_apart_graph ''Nowhere'' = []" by code_simp
  have c1: "candidates metro_apart_graph ''A'' = [''A (L1)'']" by code_simp
  have c2: "candidates metro_apart_graph ''Y'' = [''Y (L2)'']" by code_simp
  \<comment> \<open>the two lines share no station: the breadth-first search exhausts the first\<close>
  have ok: "store_ok metro_apart_graph" using build_metro_apart by (rule build_graph_store_ok)
  have "find_shortest_path metro_apart_graph ''A'' ''Y'' = Some (Inr None)" by code_simp
  with find_shortest_path_cases[OF ok, of "''A''" "''Y''"]
  have apart: "\<not> (\<exists>p. walk metro_apart_graph p \<and>
      hd p \<in> set (candidates metro_apart_graph ''A'') \<and>
      last p \<in> set (candidates metro_apart_graph ''Y''))" by auto
  from no_route[OF build_metro_apart, of "''Nowhere''" "''A''"] c0
  have n1: "find_shortest_path metro_apart_graph ''Nowhere'' ''A'' = Some (Inr None)"
    "find_fastest_path metro_apart_graph ''Nowhere'' ''A'' = Some (Inr (None, Infinite))"
    by simp_all
  from no_route[OF build_metro_apart, of "''A''" "''Y''"] apart
  have n2: "find_shortest_path metro_apart_graph ''A'' ''Y'' = Some (Inr None)"
    "find_fastest_path metro_apart_graph ''A'' ''Y'' = Some (Inr (None, Infinite))"
    by simp_all
  show ?thesis by (intro conjI build_metro_apart c0 c1 c2 apart n1 n2)
qed

text \<open>
  Claim C8. On a built graph, when some node is both a start candidate and an end
  candidate, \<open>find_shortest_path\<close> returns a path of one node, and \<open>find_fastest_path\<close>
  returns a path of one node with cost 0; the node is in both candidate sets.
\<close>

theorem overlapping_candidates:
  assumes "build_graph df rnd = Inr g"
    and "v \<in> set (candidates g s)" and "v \<in> set (candidates g e)"
  shows "\<exists>u w. find_shortest_path g s e = Some (Inr (Some [u])) \<and>
               u \<in> set (candidates g s) \<and> u \<in> set (candidates g e) \<and>
               find_fastest_path g s e = Some (Inr (Some [w], Finite 0)) \<and>
               w \<in> set (candidates g s) \<and> w \<in> set (candidates g e)"
proof -
  have ok: "store_ok g" using assms(1) by (rule build_graph_store_ok)
  have wv: "walk g [v]" "hd [v] \<in> set (candidates g s)" "last [v] \<in> set (candidates g e)"
    "costs g [v] 0" using assms(2,3) by simp_all
  \<comment> \<open>fewest stops\<close>
  from find_shortest_path_cases[OF ok, of s e] wv(1,2,3) obtain path where
    p: "find_shortest_path g s e = Some (Inr (Some path))" "path \<noteq> []"
      "hd path \<in> set (candidates g s)" "last path \<in> set (candidates g e)"
      "\<forall>p. walk g p \<and> hd p \<in> set (candidates g s) \<and> last p \<in> set (candidates g e)
           \<longrightarrow> length path \<le> length p" by blast
  from p(5)[rule_format, of "[v]"] wv(1,2,3) have "length path \<le> 1" by simp
  with p(2) obtain u where u: "path = [u]" by (cases path) auto
  \<comment> \<open>least time\<close>
  from find_fastest_path_cases[OF ok, of s e] wv(2,3,4) obtain path' d where
    q: "find_fastest_path g s e = Some (Inr (Some path', Finite d))" "path' \<noteq> []"
      "hd path' \<in> set (candidates g s)" "last path' \<in> set (candidates g e)"
      "costs g path' d"
      "\<forall>p x. costs g p x \<and> hd p \<in> set (candidates g s) \<and> last p \<in> set (candidates g e)
           \<longrightarrow> d \<le> x" by blast
  from q(6)[rule_format, of "[v]" 0] wv(2,3,4) have "d \<le> 0" by simp
  with costs_positive[OF ok q(5)] have d: "d = 0" "length path' = 1" by simp_all
  from d(2) obtain w where w: "path' = [w]" by (cases path') auto
  from p(1,3,4) q(1,3,4) u w d(1) show ?thesis by simp
qed

theorem overlapping_candidates_witness:
  "build_graph metro_two_lines (\<lambda>i. i) = Inr metro_two_lines_graph \<and>
   candidates metro_two_lines_graph ''B'' = [''B (L1)'', ''B (L2)''] \<and>
   candidates metro_two_lines_graph ''B (L2'' = [''B (L2)''] \<and>
   find_shortest_path metro_two_lines_graph ''B'' ''B (L2'' = Some (Inr (Some [''B (L2)''])) \<and>
   find_fastest_path metro_two_lines_graph ''B'' ''B (L2'' =
     Some (Inr (Some [''B (L2)''], Finite 0))"
proof -
  have c1: "candidates metro_two_lines_graph ''B'' = [''B (L1)'', ''B (L2)'']" by code_simp
  have c2: "candidates metro_two_lines_graph ''B (L2'' = [''B (L2)'']" by code_simp
  have v1: "''B (L2)'' \<in> set (candidates metro_two_lines_graph ''B'')" by (simp add: c1)
  have v2: "''B (L2)'' \<in> set (candidates metro_two_lines_graph ''B (L2'')" by (simp add: c2)
  from overlapping_candidates[OF build_metro_two_lines v1 v2] obtain u w where
    r: "find_shortest_path metro_two_lines_graph ''B'' ''B (L2'' = Some (Inr (Some [u]))"
      "u \<in> set (candidates metro_two_lines_graph ''B (L2'')"
      "find_fastest_path metro_two_lines_graph ''B'' ''B (L2'' = Some (Inr (Some [w], Finite 0))"
      "w \<in> set (candidates metro_two_lines_graph ''B (L2'')" by blast
  from r(2,4) have "u = ''B (L2)''" "w = ''B (L2)''" by (simp_all add: c2)
  with r(1,3) build_metro_two_lines c1 c2 show ?thesis by simp
qed

lemma bfs_loop_st_eq: "bfs_loop_st end_ids s g = Some (bfs_loop g end_ids s, g)"
proof (induction g end_ids s rule: bfs_loop.induct)
  case (1 g end_ids visited parent)
  show ?case by (subst bfs_loop_st.simps) simp
next
  case (2 g end_ids current queue visited parent)
  show ?case
  proof (cases "current \<in> set end_ids")
    case True
    then show ?thesis by (subst bfs_loop_st.simps) simp
  next
    case False
    show ?thesis
    proof (cases "map_of (edges g) current")
      case None
      with False show ?thesis by (subst bfs_loop_st.simps) (simp add: graph_edges_def)
    next
      case (Some nbrs)
      with False 2[OF False Some] show ?thesis
        by (subst bfs_loop_st.simps) (simp add: graph_edges_def)
    qed
  qed
qed

lemma dijkstra_loop_st_sound:
  "dijkstra_loop_st end_ids s g = Some y \<Longrightarrow>
   snd y = g \<and> dijkstra_loop g end_ids s = Some (fst y)"
proof (induction rule: dijkstra_loop_st.raw_induct[rotated, consumes 1, case_names 1])
  case (1 f end_ids s g y)
  obtain queue distances previous where s: "s = (queue, distances, previous)"
    by (cases s) auto
  show ?case
  proof (cases "queue = []")
    case True
    with 1(2) s show ?thesis by (subst dijkstra_loop.simps) auto
  next
    case False
    obtain current_dist current rest where
      pop: "heappop queue = ((current_dist, current), rest)"
      by (cases "heappop queue") auto
    show ?thesis
    proof (cases "current \<in> set end_ids")
      case True
      with 1(2) s False pop show ?thesis by (subst dijkstra_loop.simps) auto
    next
      case nt: False
      show ?thesis
      proof (cases "map_of (edges g) current")
        case None
        with 1(2) s False pop nt show ?thesis
          by (subst dijkstra_loop.simps) (auto simp: graph_edges_def)
      next
        case (Some nbrs)
        show ?thesis
        proof (cases "for_each (relax current current_dist) nbrs (rest, distances, previous)")
          case (Inl e)
          with 1(2) s False pop nt Some show ?thesis
            by (subst dijkstra_loop.simps) (auto simp: graph_edges_def)
        next
          case (Inr s')
          with 1(2) s False pop nt Some have "f end_ids s' g = Some y"
            by (simp add: graph_edges_def)
          from 1(1)[OF this] have "snd y = g \<and> dijkstra_loop g end_ids s' = Some (fst y)" .
          with s False pop nt Some Inr show ?thesis
            by (subst dijkstra_loop.simps) simp
        qed
      qed
    qed
  qed
qed

lemma dijkstra_loop_st_complete:
  "dijkstra_loop g end_ids s = Some r \<Longrightarrow> dijkstra_loop_st end_ids s g = Some (r, g)"
proof (induction rule: dijkstra_loop.raw_induct[rotated, consumes 1, case_names 1])
  case (1 f g end_ids s r)
  obtain queue distances previous where s: "s = (queue, distances, previous)"
    by (cases s) auto
  show ?case
  proof (cases "queue = []")
    case True
    with 1(2) s show ?thesis by (subst dijkstra_loop_st.simps) auto
  next
    case False
    obtain current_dist current rest where
      pop: "heappop queue = ((current_dist, current), rest)"
      by (cases "heappop queue") auto
    show ?thesis
    proof (cases "current \<in> set end_ids")
      case True
      with 1(2) s False pop show ?thesis by (subst dijkstra_loop_st.simps) auto
    next
      case nt: False
      show ?thesis
      proof (cases "map_of (edges g) current")
        case None
        with 1(2) s False pop nt show ?thesis
          by (subst dijkstra_loop_st.simps) (auto simp: graph_edges_def)
      next
        case (Some nbrs)
        show ?thesis
        proof (cases "for_each (relax current current_dist) nbrs (rest, distances, previous)")
          case (Inl e)
          with 1(2) s False pop nt Some show ?thesis
            by (subst dijkstra_loop_st.simps) (auto simp: graph_edges_def)
        next
          case (Inr s')
          with 1(2) s False pop nt Some have "f g end_ids s' = Some r" by simp
          from 1(1)[OF this] have "dijkstra_loop_st end_ids s' g = Some (r, g)" .
          with s False pop nt Some Inr show ?thesis
            by (subst dijkstra_loop_st.simps) (simp add: graph_edges_def)
        qed
      qed
    qed
  qed
qed

lemma dijkstra_loop_st_eq:
  "dijkstra_loop_st end_ids s g = map_option (\<lambda>r. (r, g)) (dijkstra_loop g end_ids s)"
proof (cases "dijkstra_loop g end_ids s")
  case None
  have "dijkstra_loop_st end_ids s g = None"
  proof (cases "dijkstra_loop_st end_ids s g")
    case (Some y)
    from dijkstra_loop_st_sound[OF this] None show ?thesis by simp
  qed simp
  with None show ?thesis by simp
next
  case (Some r)
  from dijkstra_loop_st_complete[OF this] Some show ?thesis by simp
qed

lemma find_shortest_path_st_eq:
  "find_shortest_path_st g a b = map_option (\<lambda>r. (r, g)) (find_shortest_path g a b)"
  by (simp add: find_shortest_path_st_def find_shortest_path_def candidates_st_def
      graph_nodes_def candidates_def bfs_loop_st_eq Let_def
      split: sum.splits option.splits prod.splits)

lemma find_fastest_path_st_eq:
  "find_fastest_path_st g a b = map_option (\<lambda>r. (r, g)) (find_fastest_path g a b)"
  by (simp add: find_fastest_path_st_def find_fastest_path_def candidates_st_def
      graph_nodes_def candidates_def dijkstra_loop_st_eq Let_def
      split: sum.splits option.splits prod.splits)

text \<open>
  Claim C9. Take any store and two names, and let a finder be invoked on the store and,
  when that call returns, invoked again on the store that the first call leaves.  The
  first call leaves the store as it found it, and the second call returns what the first
  returned, the same path (with the same cost) or the same exception, and leaves the
  store as it was; what both return is the value that \<open>find_shortest_path\<close>, or
  \<open>find_fastest_path\<close>, gives for the store and the names. On a graph that
  \<open>build_graph\<close> returns the first call does return, and raises nothing.
\<close>

theorem finders_repeatable:
  "(\<forall>first g1 second.
      find_shortest_path_st g a b = Some (first, g1) \<and>
      find_shortest_path_st g1 a b = second \<longrightarrow>
        g1 = g \<and> second = Some (first, g) \<and> find_shortest_path g a b = Some first) \<and>
   (\<forall>first g1 second.
      find_fastest_path_st g a b = Some (first, g1) \<and>
      find_fastest_path_st g1 a b = second \<longrightarrow>
        g1 = g \<and> second = Some (first, g) \<and> find_fastest_path g a b = Some first) \<and>
   (build_graph df rnd = Inr g \<longrightarrow>
      (\<exists>path. find_shortest_path_st g a b = Some (Inr path, g)) \<and>
      (\<exists>path cost. find_fastest_path_st g a b = Some (Inr (path, cost), g)))"
proof -
  have s: "g1 = g \<and> second = Some (first, g) \<and> find_shortest_path g a b = Some first"
    if "find_shortest_path_st g a b = Some (first, g1)"
      and "find_shortest_path_st g1 a b = second" for first g1 second
  proof -
    from that(1) have "g1 = g" "find_shortest_path g a b = Some first"
      by (auto simp: find_shortest_path_st_eq)
    with that show ?thesis by simp
  qed
  have f: "g1 = g \<and> second = Some (first, g) \<and> find_fastest_path g a b = Some first"
    if "find_fastest_path_st g a b = Some (first, g1)"
      and "find_fastest_path_st g1 a b = second" for first g1 second
  proof -
    from that(1) have "g1 = g" "find_fastest_path g a b = Some first"
      by (auto simp: find_fastest_path_st_eq)
    with that show ?thesis by simp
  qed
  have b: "(\<exists>path. find_shortest_path_st g a b = Some (Inr path, g)) \<and>
      (\<exists>path cost. find_fastest_path_st g a b = Some (Inr (path, cost), g))"
    if "build_graph df rnd = Inr g"
  proof -
    have ok: "store_ok g" using that by (rule build_graph_store_ok)
    from find_shortest_path_cases[OF ok, of a b]
    have "\<exists>r. find_shortest_path g a b = Some (Inr r)" by blast
    moreover from find_fastest_path_cases[OF ok, of a b]
    have "\<exists>p c. find_fastest_path g a b = Some (Inr (p, c))" by blast
    ultimately show ?thesis
      by (auto simp: find_shortest_path_st_eq find_fastest_path_st_eq)
  qed
  from s f b show ?thesis by blast
qed

theorem finders_repeatable_witness:
  "build_graph metro_two_lines (\<lambda>i. i) = Inr metro_two_lines_graph \<and>
   (\<exists>first g1 second g2.
      find_shortest_path_st metro_two_lines_graph ''A'' ''D'' = Some (first, g1) \<and>
      find_shortest_path_st g1 ''A'' ''D'' = Some (second, g2) \<and>
      first = Inr (Some [''A (L1)'', ''B (L1)'', ''B (L2)'', ''D (L2)'']) \<and>
      second = Inr (Some [''A (L1)'', ''B (L1)'', ''B (L2)'', ''D (L2)'']) \<and>
      g1 = metro_two_lines_graph \<and> g2 = metro_two_lines_graph) \<and>
   (\<exists>first g1 second g2.
      find_fastest_path_st metro_two_lines_graph ''A'' ''D'' = Some (first, g1) \<and>
      find_fastest_path_st g1 ''A'' ''D'' = Some (second, g2) \<and>
      first = Inr (Some [''A (L1)'', ''B (L1)'', ''B (L2)'', ''D (L2)''], Finite 11) \<and>
      second = Inr (Some [''A (L1)'', ''B (L1)'', ''B (L2)'', ''D (L2)''], Finite 11) \<and>
      g1 = metro_two_lines_graph \<and> g2 = metro_two_lines_graph)"
proof -
  let ?g = "metro_two_lines_graph"
  let ?path = "[''A (L1)'', ''B (L1)'', ''B (L2)'', ''D (L2)'']"
  note t = finders_repeatable[of ?g "''A''" "''D''" metro_two_lines "\<lambda>i. i"]
  from t build_metro_two_lines obtain p where
    p: "find_shortest_path_st ?g ''A'' ''D'' = Some (Inr p, ?g)" by blast
  from t build_metro_two_lines obtain q c where
    q: "find_fastest_path_st ?g ''A'' ''D'' = Some (Inr (q, c), ?g)" by blast
  from t p have p2: "find_shortest_path_st ?g ''A'' ''D'' = Some (Inr p, ?g) \<and>
      find_shortest_path ?g ''A'' ''D'' = Some (Inr p)" by blast
  from t q have q2: "find_fastest_path_st ?g ''A'' ''D'' = Some (Inr (q, c), ?g) \<and>
      find_fastest_path ?g ''A'' ''D'' = Some (Inr (q, c))" by blast
  have "find_shortest_path ?g ''A'' ''D'' = Some (Inr (Some ?path))" by code_simp
  with p2 have pv: "p = Some ?path" by simp
  have "find_fastest_path ?g ''A'' ''D'' = Some (Inr (Some ?path, Finite 11))" by code_simp
  with q2 have qv: "q = Some ?path" "c = Finite 11" by simp_all
  have "\<exists>first g1 second g2.
      find_shortest_path_st ?g ''A'' ''D'' = Some (first, g1) \<and>
      find_shortest_path_st g1 ''A'' ''D'' = Some (second, g2) \<and>
      first = Inr (Some ?path) \<and> second = Inr (Some ?path) \<and> g1 = ?g \<and> g2 = ?g"
    using p pv by simp
  moreover have "\<exists>first g1 second g2.
      find_fastest_path_st ?g ''A'' ''D'' = Some (first, g1) \<and>
      find_fastest_path_st g1 ''A'' ''D'' = Some (second, g2) \<and>
      first = Inr (Some ?path, Finite 11) \<and> second = Inr (Some ?path, Finite 11) \<and>
      g1 = ?g \<and> g2 = ?g"
    using q qv by simp
  ultimately show ?thesis using build_metro_two_lines by (intro conjI)
qed

end
